theory Spec2Isabelle
  imports Main
begin

section \<open>Data model of \<open>enaml/core/dynamic_template.py\<close>\<close>

text \<open>
  Objects of the declarative tree (produced items, the parent) are known by their
  identity. Python values passed to a template are kept abstract enough for the
  node, which only hands them on.
\<close>

type_synonym obj = nat

type_synonym task = nat

datatype pyval = PyNone | PyInt int | PyStr string

type_synonym kwargs = "string \<rightharpoonup> pyval"

text \<open>
  The exceptions that travel through the node: the \<open>ValueError\<close> of
  \<open>_rebuild_tags\<close>, the \<open>AttributeError\<close> of \<open>self.parent.insert_children\<close> on a
  parent that is \<open>None\<close>, and whatever a template raises.
\<close>

datatype exn = ValueError string | AttributeError string | OtherError string

text \<open>
  A template is called in two stages, \<open>base(*args)(**data)\<close>; either call may raise.
\<close>

type_synonym template = "pyval list \<Rightarrow> exn + (kwargs \<Rightarrow> exn + obj list)"

text \<open>
  A value of the \<open>tagged\<close> dictionary: one item for a name of \<open>tags\<close>, the tuple
  \<open>tuple(items[len(tags):])\<close> for \<open>startag\<close>.
\<close>

datatype tagval = Item obj | Items "obj list"

text \<open>The \<open>type\<close> entry of an atom change dictionary.\<close>

datatype change_type = Create | Update | Delete | Container | Property | Event

text \<open>
  An assignment to one of the members observed by \<open>_schedule_refresh\<close>.
\<close>

datatype attr_write = SetBase "template option" | SetArgs "pyval list" | SetData kwargs

text \<open>
  The calls the node makes on its collaborators, in the order it makes them.
\<close>

datatype event =
    EvInstantiate
  | EvDestroy obj
  | EvInsert obj "obj list"
  | EvSchedule task
  | EvUnschedule task
  | EvSuperDestroy

text \<open>
  The node and the part of its surroundings that it reads or changes. The fields
  \<open>base\<close> to \<open>items\<close> are the members of \<open>DynamicTemplate\<close> (\<open>update_task\<close> is
  \<open>_update_task\<close>, \<open>items\<close> is \<open>_items\<close>); \<open>parent\<close> is inherited from
  \<open>Declarative\<close>. \<open>destroyed\<close> holds the objects whose \<open>is_destroyed\<close> flag is set,
  \<open>queue\<close> the tasks the application still has to run, \<open>next_task\<close> the next fresh
  task handle, \<open>on_destroy\<close> the assignments to this node made by handlers that fire
  while a produced item is torn down, and \<open>trace\<close> the calls made so far.
\<close>

record node =
  base :: "template option"
  args :: "pyval list"
  tags :: "string list"
  startag :: string
  data :: kwargs
  tagged :: "string \<rightharpoonup> tagval"
  update_task :: "task option"
  items :: "obj list"
  parent :: "obj option"
  destroyed :: "obj set"
  queue :: "task list"
  next_task :: task
  on_destroy :: "obj \<Rightarrow> attr_write list"
  trace :: "event list"

type_synonym 'a outcome = "exn option \<times> 'a"

section \<open>Formatting\<close>

text \<open>The \<open>%d\<close> of \<open>msg % len(items)\<close>: a length in decimal.\<close>

definition digit_char :: "nat \<Rightarrow> char" where
  "digit_char d = ''0123456789'' ! d"

function show_nat :: "nat \<Rightarrow> string" where
  "show_nat n = (if n < 10 then [digit_char n] else show_nat (n div 10) @ [digit_char (n mod 10)])"
  by pat_completeness auto
termination
  by (relation "measure id") auto

declare show_nat.simps [simp del]

section \<open>The tag-unpacking engine\<close>

text \<open>
  \<open>_rebuild_tags\<close>: both checks come before the fresh dictionary is filled, and
  \<open>self.tagged\<close> is assigned last, so a raise leaves the node as it was.
\<close>

definition rebuild_tags :: "node \<Rightarrow> node outcome" where
  "rebuild_tags s =
     (let tags' = tags s; startag' = startag s; items' = items s;
          tagged0 = (Map.empty :: string \<rightharpoonup> tagval)
      in if tags' \<noteq> [] \<and> length tags' > length items' then
           (Some (ValueError (''need more than '' @ show_nat (length items') @ '' values to unpack'')), s)
         else if tags' \<noteq> [] \<and> startag' = [] \<and> length items' > length tags' then
           (Some (ValueError ''too many values to unpack''), s)
         else
           let tagged1 = (if tags' \<noteq> []
                          then fold (\<lambda>(name, item) m. m(name \<mapsto> Item item)) (zip tags' items') tagged0
                          else tagged0);
               tagged2 = (if startag' \<noteq> []
                          then tagged1(startag' \<mapsto> Items (drop (length tags') items'))
                          else tagged1)
           in (None, s\<lparr>tagged := tagged2\<rparr>))"

section \<open>Collaborators\<close>

text \<open>
  Modelled from the spec: the scheduler of \<open>enaml.application\<close> (\<open>schedule\<close> and
  \<open>ScheduledTask.unschedule\<close> are not in this file). \<open>schedule(callable)\<close> hands out
  a fresh task handle and queues the task; \<open>unschedule\<close> takes the task out of the
  queue. Only the tasks of this node are tracked.
\<close>

definition schedule :: "node \<Rightarrow> task \<times> node" where
  "schedule s =
     (next_task s,
      s\<lparr>queue := queue s @ [next_task s],
        next_task := Suc (next_task s),
        trace := trace s @ [EvSchedule (next_task s)]\<rparr>)"

definition unschedule :: "task \<Rightarrow> node \<Rightarrow> node" where
  "unschedule t s = s\<lparr>queue := removeAll t (queue s), trace := trace s @ [EvUnschedule t]\<rparr>"

text \<open>
  Modelled from the spec: \<open>insert_children\<close> of the parent (class \<open>Object\<close>, not in
  this file) is synchronous and has no effect on the node. Reading the attribute on a
  parent that is \<open>None\<close> is Python's \<open>AttributeError\<close>, whose message is
  \<open>'NoneType' object has no attribute 'insert_children'\<close>.
\<close>

definition no_insert_children :: string where
  "no_insert_children = CHR 0x27 # ''NoneType' object has no attribute 'insert_children'' @ [CHR 0x27]"

definition insert_children :: "obj list \<Rightarrow> node \<Rightarrow> node outcome" where
  "insert_children new_items s =
     (case parent s of
        None \<Rightarrow> (Some (AttributeError no_insert_children), s)
      | Some p \<Rightarrow> (None, s\<lparr>trace := trace s @ [EvInsert p new_items]\<rparr>))"

text \<open>
  Modelled from the spec: \<open>Declarative.destroy\<close> of the node's base class (not in this
  file) tears down the node's own substructure; none of the members declared by
  \<open>DynamicTemplate\<close> is touched by it.
\<close>

definition super_destroy :: "node \<Rightarrow> node" where
  "super_destroy s = s\<lparr>trace := trace s @ [EvSuperDestroy]\<rparr>"

section \<open>Observers\<close>

text \<open>\<open>_schedule_refresh\<close>, the observer of \<open>base\<close>, \<open>args\<close> and \<open>data\<close>.\<close>

definition schedule_refresh :: "change_type \<Rightarrow> node \<Rightarrow> node" where
  "schedule_refresh change s =
     (if change = Update then
        (if update_task s = None
         then (case schedule s of (t, s') \<Rightarrow> s'\<lparr>update_task := Some t\<rparr>)
         else s)
      else s)"

text \<open>\<open>_update_tags\<close>, the observer of \<open>tags\<close> and \<open>startag\<close>.\<close>

definition update_tags :: "change_type \<Rightarrow> node \<Rightarrow> node outcome" where
  "update_tags change s = (if change = Update then rebuild_tags s else (None, s))"

text \<open>
  A value-replacing assignment to an observed member: the member takes its new value,
  then the observer runs with a change of type \<open>update\<close>. An assignment of the value
  the member already has, or the first assignment to a member (a change of type
  \<open>create\<close>), is not one of these.
\<close>

fun apply_write :: "attr_write \<Rightarrow> node \<Rightarrow> node" where
  "apply_write (SetBase b) s = schedule_refresh Update (s\<lparr>base := b\<rparr>)"
| "apply_write (SetArgs a) s = schedule_refresh Update (s\<lparr>args := a\<rparr>)"
| "apply_write (SetData d) s = schedule_refresh Update (s\<lparr>data := d\<rparr>)"

definition set_tags :: "string list \<Rightarrow> node \<Rightarrow> node outcome" where
  "set_tags v s = update_tags Update (s\<lparr>tags := v\<rparr>)"

definition set_startag :: "string \<Rightarrow> node \<Rightarrow> node outcome" where
  "set_startag v s = update_tags Update (s\<lparr>startag := v\<rparr>)"

section \<open>The instantiation engine\<close>

text \<open>
  Modelled from the spec: \<open>destroy\<close> of a produced item (class \<open>Declarative\<close>, not in
  this file) sets the item's destruction flag; change handlers fired during the
  teardown may assign to the node's \<open>base\<close>, \<open>args\<close> or \<open>data\<close>.
\<close>

definition item_destroy :: "obj \<Rightarrow> node \<Rightarrow> node" where
  "item_destroy old s =
     fold apply_write (on_destroy s old)
       (s\<lparr>destroyed := insert old (destroyed s), trace := trace s @ [EvDestroy old]\<rparr>)"

text \<open>The loop \<open>for old in self._items: if not old.is_destroyed: old.destroy()\<close>.\<close>

fun destroy_items :: "obj list \<Rightarrow> node \<Rightarrow> node" where
  "destroy_items [] s = s"
| "destroy_items (old # rest) s =
     destroy_items rest (if old \<notin> destroyed s then item_destroy old s else s)"

text \<open>\<open>self.base(*self.args)(**self.data)\<close>.\<close>

definition instantiate :: "template \<Rightarrow> node \<Rightarrow> exn + obj list" where
  "instantiate b s = (case b (args s) of Inl e \<Rightarrow> Inl e | Inr intermediate \<Rightarrow> intermediate (data s))"

text \<open>
  The new item list of \<open>_refresh\<close>: the template's result when \<open>base\<close> is not
  \<open>None\<close>, the empty list otherwise.
\<close>

definition produce :: "node \<Rightarrow> (exn + obj list) \<times> node" where
  "produce s =
     (case base s of
        Some b \<Rightarrow> (instantiate b s, s\<lparr>trace := trace s @ [EvInstantiate]\<rparr>)
      | None \<Rightarrow> (Inr [], s))"

text \<open>
  \<open>_refresh\<close>. An exception leaves the node in the state reached when it was raised,
  which is returned with it.
\<close>

definition refresh :: "node \<Rightarrow> node outcome" where
  "refresh s0 =
     (let s1 = s0\<lparr>update_task := None\<rparr> in
      case produce s1 of
        (Inl e, s2) \<Rightarrow> (Some e, s2)
      | (Inr new_items, s2) \<Rightarrow>
          let s3 = destroy_items (items s2) s2 in
          (case (if length new_items > 0 then insert_children new_items s3 else (None, s3)) of
             (Some e, s4) \<Rightarrow> (Some e, s4)
           | (None, s4) \<Rightarrow> rebuild_tags (s4\<lparr>items := new_items\<rparr>)))"

section \<open>Destruction of the node\<close>

text \<open>
  \<open>destroy\<close>. A \<open>del\<close> of an atom member resets it: the member reads as its default
  afterwards. The observer of \<open>data\<close> is notified of the \<open>del\<close> with a change of type
  \<open>delete\<close>; \<open>tagged\<close>, \<open>_update_task\<close> and \<open>_items\<close> have no observer.
\<close>

definition destroy :: "node \<Rightarrow> node" where
  "destroy s0 =
     (let s1 = super_destroy s0;
          s2 = schedule_refresh Delete (s1\<lparr>data := Map.empty\<rparr>);
          s3 = s2\<lparr>tagged := Map.empty\<rparr>;
          s4 = (case update_task s3 of
                  Some t \<Rightarrow> (unschedule t s3)\<lparr>update_task := None\<rparr>
                | None \<Rightarrow> s3)
      in s4\<lparr>items := []\<rparr>)"

section \<open>The application's task queue\<close>

text \<open>
  Modelled from the spec: the application runs a queued task by taking it from the
  queue and calling it; the task of this node is \<open>_refresh\<close>. An exception of the task
  is reported at top level and the queue goes on.
\<close>

definition run_next :: "node \<Rightarrow> node outcome" where
  "run_next s = (case queue s of [] \<Rightarrow> (None, s) | t # rest \<Rightarrow> refresh (s\<lparr>queue := rest\<rparr>))"

datatype action = Change attr_write | Tick

fun do_action :: "action \<Rightarrow> node \<Rightarrow> node" where
  "do_action (Change w) s = apply_write w s"
| "do_action Tick s = snd (run_next s)"

section \<open>Reading a trace, and the nodes used as examples\<close>

text \<open>
  An assignment is value-replacing when the new value differs from the member's
  current one; only such an assignment notifies the observer with a change of type
  \<open>update\<close>.
\<close>

fun replaces :: "attr_write \<Rightarrow> node \<Rightarrow> bool" where
  "replaces (SetBase b) s = (base s \<noteq> b)"
| "replaces (SetArgs a) s = (args s \<noteq> a)"
| "replaces (SetData d) s = (data s \<noteq> d)"

fun all_replace :: "attr_write list \<Rightarrow> node \<Rightarrow> bool" where
  "all_replace [] s = True"
| "all_replace (w # ws) s = (replaces w s \<and> all_replace ws (apply_write w s))"


definition destroys_of :: "event list \<Rightarrow> obj list" where
  "destroys_of es = concat (map (\<lambda>e. case e of EvDestroy x \<Rightarrow> [x] | _ \<Rightarrow> []) es)"

definition inserts_of :: "event list \<Rightarrow> (obj \<times> obj list) list" where
  "inserts_of es = concat (map (\<lambda>e. case e of EvInsert p xs \<Rightarrow> [(p, xs)] | _ \<Rightarrow> []) es)"

definition schedules_of :: "event list \<Rightarrow> task list" where
  "schedules_of es = concat (map (\<lambda>e. case e of EvSchedule t \<Rightarrow> [t] | _ \<Rightarrow> []) es)"

definition instantiations :: "event list \<Rightarrow> nat" where
  "instantiations es = length (filter (\<lambda>e. e = EvInstantiate) es)"

definition is_insert :: "event \<Rightarrow> bool" where
  "is_insert e = (case e of EvInsert p xs \<Rightarrow> True | _ \<Rightarrow> False)"

text \<open>The events a run has added to the trace it started with.\<close>

definition events_since :: "node \<Rightarrow> node \<Rightarrow> event list" where
  "events_since s s' = drop (length (trace s)) (trace s')"

text \<open>
  The queue holds the task recorded in \<open>_update_task\<close> and no other: the state of a
  node whose refreshes are all run by the application.
\<close>

definition pending_agrees :: "node \<Rightarrow> bool" where
  "pending_agrees s = (queue s = (case update_task s of None \<Rightarrow> [] | Some t \<Rightarrow> [t]))"

text \<open>A node as constructed: no template, nothing produced, nothing pending, no parent.\<close>

definition fresh_node :: node where
  "fresh_node =
     \<lparr>base = None, args = [], tags = [], startag = [], data = Map.empty, tagged = Map.empty,
      update_task = None, items = [], parent = None, destroyed = {}, queue = [], next_task = 0,
      on_destroy = (\<lambda>_. []), trace = []\<rparr>"

section \<open>Arity errors of the tag-unpacking engine\<close>

text \<open>
  C1. With \<open>k = len(tags)\<close> and \<open>n = len(items)\<close>, \<open>_rebuild_tags\<close> raises the
  \<open>ValueError\<close> "need more than n values to unpack" exactly when \<open>k > 0\<close> and \<open>k > n\<close>,
  raises the \<open>ValueError\<close> "too many values to unpack" exactly when \<open>k > 0\<close>, \<open>startag\<close>
  is empty and \<open>n > k\<close>, and succeeds in every other case.
\<close>

theorem rebuild_tags_raises:
  "(fst (rebuild_tags s) =
      Some (ValueError (''need more than '' @ show_nat (length (items s)) @ '' values to unpack''))
    \<longleftrightarrow> 0 < length (tags s) \<and> length (items s) < length (tags s))
   \<and> (fst (rebuild_tags s) = Some (ValueError ''too many values to unpack'')
    \<longleftrightarrow> 0 < length (tags s) \<and> startag s = [] \<and> length (tags s) < length (items s))
   \<and> (\<not> (0 < length (tags s) \<and> length (items s) < length (tags s)) \<and>
       \<not> (0 < length (tags s) \<and> startag s = [] \<and> length (tags s) < length (items s))
      \<longrightarrow> fst (rebuild_tags s) = None)"
  by (auto simp: rebuild_tags_def Let_def)

theorem rebuild_tags_raises_witness:
  "fst (rebuild_tags (fresh_node\<lparr>tags := [''a'', ''b''], items := [1]\<rparr>)) =
     Some (ValueError ''need more than 1 values to unpack'')
   \<and> fst (rebuild_tags (fresh_node\<lparr>tags := [''a''], items := [1, 2]\<rparr>)) =
     Some (ValueError ''too many values to unpack'')
   \<and> fst (rebuild_tags (fresh_node\<lparr>tags := [''a'', ''b''], items := [1, 2]\<rparr>)) = None
   \<and> fst (rebuild_tags (fresh_node\<lparr>items := [1, 2]\<rparr>)) = None"
  using rebuild_tags_raises [of "fresh_node\<lparr>tags := [''a'', ''b''], items := [1]\<rparr>"]
    rebuild_tags_raises [of "fresh_node\<lparr>tags := [''a''], items := [1, 2]\<rparr>"]
    rebuild_tags_raises [of "fresh_node\<lparr>tags := [''a'', ''b''], items := [1, 2]\<rparr>"]
    rebuild_tags_raises [of "fresh_node\<lparr>items := [1, 2]\<rparr>"]
  by (simp add: fresh_node_def show_nat.simps digit_char_def)

section \<open>What a successful rebuild binds\<close>

text \<open>
  The loop \<open>for name, item in zip(tags, items): tagged[name] = item\<close> leaves a name
  outside \<open>tags\<close> alone, binds a name to the item at its last position, and adds all
  of \<open>tags\<close> to the keys.
\<close>

lemma fold_bind_other:
  "x \<notin> set ts \<Longrightarrow> fold (\<lambda>(name, item) m. m(name \<mapsto> Item item)) (zip ts xs) m x = m x"
  by (induction ts arbitrary: xs m) (auto simp: zip_Cons1 split: list.splits)

lemma fold_bind_last:
  "i < length ts \<Longrightarrow> i < length xs \<Longrightarrow> ts ! i \<notin> set (drop (Suc i) ts) \<Longrightarrow>
   fold (\<lambda>(name, item) m. m(name \<mapsto> Item item)) (zip ts xs) m (ts ! i) = Some (Item (xs ! i))"
proof (induction ts arbitrary: xs m i)
  case Nil
  then show ?case by simp
next
  case (Cons t ts)
  then obtain y ys where xs: "xs = y # ys" by (cases xs) auto
  show ?case
  proof (cases i)
    case 0
    with Cons.prems xs fold_bind_other [of t ts ys "m(t \<mapsto> Item y)"] show ?thesis by (simp del: fun_upd_apply) simp
  next
    case (Suc j)
    with Cons.prems xs Cons.IH [of j ys] show ?thesis by simp
  qed
qed

lemma fold_bind_dom:
  "length ts \<le> length xs \<Longrightarrow>
   dom (fold (\<lambda>(name, item) m. m(name \<mapsto> Item item)) (zip ts xs) m) = dom m \<union> set ts"
proof (induction ts arbitrary: xs m)
  case Nil
  then show ?case by simp
next
  case (Cons t ts)
  then obtain y ys where xs: "xs = y # ys" by (cases xs) auto
  with Cons.prems Cons.IH [of ys "m(t \<mapsto> Item y)"] show ?case by auto
qed

lemma rebuild_tags_ok:
  assumes "rebuild_tags s = (None, s')"
  shows "length (tags s) \<le> length (items s) \<or> tags s = []"
    and "s' = s\<lparr>tagged :=
           (let m = (if tags s \<noteq> [] then fold (\<lambda>(name, item) m. m(name \<mapsto> Item item)) (zip (tags s) (items s)) Map.empty else Map.empty)
            in if startag s \<noteq> [] then m(startag s \<mapsto> Items (drop (length (tags s)) (items s))) else m)\<rparr>"
  using assms by (auto simp: rebuild_tags_def Let_def split: if_splits)

text \<open>
  C2, as stated, fails: a name that is also \<open>startag\<close>, or that occurs again later in
  \<open>tags\<close>, is not bound to the item at its own position, because a later assignment to
  the same key of the dictionary replaces the earlier one.
\<close>

theorem rebuild_tags_binds_counterexample:
  "fst (rebuild_tags (fresh_node\<lparr>tags := [''a''], startag := ''a'', items := [1]\<rparr>)) = None
   \<and> tagged (snd (rebuild_tags (fresh_node\<lparr>tags := [''a''], startag := ''a'', items := [1]\<rparr>)))
         ([''a''] ! 0) \<noteq> Some (Item ([1] ! 0))
   \<and> fst (rebuild_tags (fresh_node\<lparr>tags := [''a'', ''a''], items := [1, 2]\<rparr>)) = None
   \<and> tagged (snd (rebuild_tags (fresh_node\<lparr>tags := [''a'', ''a''], items := [1, 2]\<rparr>)))
         ([''a'', ''a''] ! 0) \<noteq> Some (Item ([1, 2] ! 0))"
  by (simp add: rebuild_tags_def fresh_node_def Let_def)

text \<open>
  C2, amended. When \<open>_rebuild_tags\<close> succeeds, the new \<open>tagged\<close> binds \<open>tags[i]\<close> to
  \<open>items[i]\<close> for every index \<open>i\<close> in \<open>[0, k)\<close> whose name does not occur again later
  in \<open>tags\<close> and is not the non-empty \<open>startag\<close>; a non-empty \<open>startag\<close> is bound to the
  tuple \<open>items[k:]\<close>, the empty tuple when \<open>n = k\<close>; with \<open>k = 0\<close> and an empty \<open>startag\<close>
  the map is empty whatever \<open>n\<close> is. The map is a whole new one: its keys are exactly
  the names of \<open>tags\<close> and the non-empty \<open>startag\<close>, and nothing but \<open>tagged\<close> changes.
\<close>

theorem rebuild_tags_binds:
  assumes "rebuild_tags s = (None, s')"
  shows "(\<forall>i < length (tags s).
            tags s ! i \<notin> set (drop (Suc i) (tags s)) \<and> (startag s = [] \<or> tags s ! i \<noteq> startag s)
            \<longrightarrow> tagged s' (tags s ! i) = Some (Item (items s ! i)))
       \<and> (startag s \<noteq> [] \<longrightarrow>
            tagged s' (startag s) = Some (Items (drop (length (tags s)) (items s)))
            \<and> (length (items s) = length (tags s) \<longrightarrow> tagged s' (startag s) = Some (Items [])))
       \<and> (tags s = [] \<and> startag s = [] \<longrightarrow> tagged s' = Map.empty)
       \<and> dom (tagged s') = set (tags s) \<union> (if startag s = [] then {} else {startag s})
       \<and> s' = s\<lparr>tagged := tagged s'\<rparr>"
proof -
  note ok = rebuild_tags_ok [OF assms]
  have len: "length (tags s) \<le> length (items s)" using ok(1) by auto
  have a: "\<forall>i < length (tags s).
            tags s ! i \<notin> set (drop (Suc i) (tags s)) \<and> (startag s = [] \<or> tags s ! i \<noteq> startag s)
            \<longrightarrow> tagged s' (tags s ! i) = Some (Item (items s ! i))"
  proof (intro allI impI)
    fix i assume i: "i < length (tags s)"
      and h: "tags s ! i \<notin> set (drop (Suc i) (tags s)) \<and> (startag s = [] \<or> tags s ! i \<noteq> startag s)"
    from i have ne: "tags s \<noteq> []" by auto
    from i len have i': "i < length (items s)" by simp
    from h have last: "tags s ! i \<notin> set (drop (Suc i) (tags s))" by simp
    show "tagged s' (tags s ! i) = Some (Item (items s ! i))"
      using h ne fold_bind_last [OF i i' last, of Map.empty]
      by (subst ok(2)) (auto simp: Let_def)
  qed
  have b: "startag s \<noteq> [] \<longrightarrow>
            tagged s' (startag s) = Some (Items (drop (length (tags s)) (items s)))
            \<and> (length (items s) = length (tags s) \<longrightarrow> tagged s' (startag s) = Some (Items []))"
    by (subst ok(2), subst ok(2)) (simp add: Let_def)
  have c: "tags s = [] \<and> startag s = [] \<longrightarrow> tagged s' = Map.empty"
    by (subst ok(2)) (simp add: Let_def)
  have d: "dom (tagged s') = set (tags s) \<union> (if startag s = [] then {} else {startag s})"
    using len by (subst ok(2)) (auto simp: Let_def fold_bind_dom)
  have e: "s' = s\<lparr>tagged := tagged s'\<rparr>"
  proof -
    from ok(2) obtain m where "s' = s\<lparr>tagged := m\<rparr>" by blast
    then show ?thesis by simp
  qed
  from a b c d e show ?thesis by blast
qed

theorem rebuild_tags_binds_witness:
  "rebuild_tags (fresh_node\<lparr>tags := [''a''], startag := ''rest'', items := [1, 2, 3]\<rparr>) =
     (None, snd (rebuild_tags (fresh_node\<lparr>tags := [''a''], startag := ''rest'', items := [1, 2, 3]\<rparr>)))
   \<and> tagged (snd (rebuild_tags (fresh_node\<lparr>tags := [''a''], startag := ''rest'', items := [1, 2, 3]\<rparr>)))
         ''a'' = Some (Item 1)
   \<and> tagged (snd (rebuild_tags (fresh_node\<lparr>tags := [''a''], startag := ''rest'', items := [1, 2, 3]\<rparr>)))
         ''rest'' = Some (Items [2, 3])
   \<and> dom (tagged (snd (rebuild_tags (fresh_node\<lparr>tags := [''a''], startag := ''rest'', items := [1, 2, 3]\<rparr>))))
       = {''a'', ''rest''}"
proof -
  let ?s = "fresh_node\<lparr>tags := [''a''], startag := ''rest'', items := [1, 2, 3]\<rparr>"
  have h: "rebuild_tags ?s = (None, snd (rebuild_tags ?s))"
    by (simp add: rebuild_tags_def fresh_node_def Let_def)
  show ?thesis
    using h rebuild_tags_binds [OF h] by (auto simp: fresh_node_def)
qed

section \<open>Frame and trace lemmas\<close>

lemma destroys_of_simps [simp]:
  "destroys_of [] = []"
  "destroys_of (es @ fs) = destroys_of es @ destroys_of fs"
  "destroys_of (EvDestroy x # es) = x # destroys_of es"
  "destroys_of (EvInstantiate # es) = destroys_of es"
  "destroys_of (EvInsert p xs # es) = destroys_of es"
  "destroys_of (EvSchedule t # es) = destroys_of es"
  "destroys_of (EvUnschedule t # es) = destroys_of es"
  "destroys_of (EvSuperDestroy # es) = destroys_of es"
  by (simp_all add: destroys_of_def)

lemma inserts_of_simps [simp]:
  "inserts_of [] = []"
  "inserts_of (es @ fs) = inserts_of es @ inserts_of fs"
  "inserts_of (EvInsert p xs # es) = (p, xs) # inserts_of es"
  "inserts_of (EvInstantiate # es) = inserts_of es"
  "inserts_of (EvDestroy x # es) = inserts_of es"
  "inserts_of (EvSchedule t # es) = inserts_of es"
  "inserts_of (EvUnschedule t # es) = inserts_of es"
  "inserts_of (EvSuperDestroy # es) = inserts_of es"
  by (simp_all add: inserts_of_def)

lemma schedules_of_simps [simp]:
  "schedules_of [] = []"
  "schedules_of (es @ fs) = schedules_of es @ schedules_of fs"
  "schedules_of (EvSchedule t # es) = t # schedules_of es"
  "schedules_of (EvInstantiate # es) = schedules_of es"
  "schedules_of (EvDestroy x # es) = schedules_of es"
  "schedules_of (EvInsert p xs # es) = schedules_of es"
  "schedules_of (EvUnschedule t # es) = schedules_of es"
  "schedules_of (EvSuperDestroy # es) = schedules_of es"
  by (simp_all add: schedules_of_def)

lemma instantiations_simps [simp]:
  "instantiations [] = 0"
  "instantiations (es @ fs) = instantiations es + instantiations fs"
  "instantiations (EvInstantiate # es) = Suc (instantiations es)"
  "instantiations (EvSchedule t # es) = instantiations es"
  "instantiations (EvDestroy x # es) = instantiations es"
  "instantiations (EvInsert p xs # es) = instantiations es"
  "instantiations (EvUnschedule t # es) = instantiations es"
  "instantiations (EvSuperDestroy # es) = instantiations es"
  by (simp_all add: instantiations_def)

lemma is_insert_simps [simp]:
  "is_insert (EvInsert p xs)"
  "\<not> is_insert EvInstantiate"
  "\<not> is_insert (EvDestroy x)"
  "\<not> is_insert (EvSchedule t)"
  "\<not> is_insert (EvUnschedule t)"
  "\<not> is_insert EvSuperDestroy"
  by (simp_all add: is_insert_def)

subsection \<open>The observers\<close>

lemma schedule_refresh_frame [simp]:
  "base (schedule_refresh c s) = base s"
  "args (schedule_refresh c s) = args s"
  "data (schedule_refresh c s) = data s"
  "tags (schedule_refresh c s) = tags s"
  "startag (schedule_refresh c s) = startag s"
  "tagged (schedule_refresh c s) = tagged s"
  "items (schedule_refresh c s) = items s"
  "parent (schedule_refresh c s) = parent s"
  "destroyed (schedule_refresh c s) = destroyed s"
  "on_destroy (schedule_refresh c s) = on_destroy s"
  by (simp_all add: schedule_refresh_def schedule_def)

lemma schedule_refresh_pending:
  "update_task s \<noteq> None \<Longrightarrow> schedule_refresh c s = s"
  "c \<noteq> Update \<Longrightarrow> schedule_refresh c s = s"
  "update_task s = None \<Longrightarrow> schedule_refresh Update s =
     s\<lparr>queue := queue s @ [next_task s], next_task := Suc (next_task s),
       trace := trace s @ [EvSchedule (next_task s)], update_task := Some (next_task s)\<rparr>"
  by (simp_all add: schedule_refresh_def schedule_def)

lemma apply_write_frame [simp]:
  "tags (apply_write w s) = tags s"
  "startag (apply_write w s) = startag s"
  "tagged (apply_write w s) = tagged s"
  "items (apply_write w s) = items s"
  "parent (apply_write w s) = parent s"
  "destroyed (apply_write w s) = destroyed s"
  "on_destroy (apply_write w s) = on_destroy s"
  by (cases w; simp)+

lemma apply_write_sched:
  "update_task (apply_write w s) = Some (case update_task s of None \<Rightarrow> next_task s | Some t \<Rightarrow> t)"
  "queue (apply_write w s) = (case update_task s of None \<Rightarrow> queue s @ [next_task s] | Some t \<Rightarrow> queue s)"
  "next_task (apply_write w s) = (case update_task s of None \<Rightarrow> Suc (next_task s) | Some t \<Rightarrow> next_task s)"
  "trace (apply_write w s) = (case update_task s of None \<Rightarrow> trace s @ [EvSchedule (next_task s)] | Some t \<Rightarrow> trace s)"
  by (cases w; cases "update_task s"; simp add: schedule_refresh_pending)+

lemma writes_frame [simp]:
  "tags (fold apply_write ws s) = tags s"
  "startag (fold apply_write ws s) = startag s"
  "tagged (fold apply_write ws s) = tagged s"
  "items (fold apply_write ws s) = items s"
  "parent (fold apply_write ws s) = parent s"
  "destroyed (fold apply_write ws s) = destroyed s"
  "on_destroy (fold apply_write ws s) = on_destroy s"
  by (induction ws arbitrary: s; simp)+

lemma writes_sched:
  "update_task (fold apply_write ws s) =
     (if ws = [] then update_task s else Some (case update_task s of None \<Rightarrow> next_task s | Some t \<Rightarrow> t))"
  "queue (fold apply_write ws s) =
     (if ws = [] then queue s else case update_task s of None \<Rightarrow> queue s @ [next_task s] | Some t \<Rightarrow> queue s)"
  "next_task (fold apply_write ws s) =
     (if ws = [] then next_task s else case update_task s of None \<Rightarrow> Suc (next_task s) | Some t \<Rightarrow> next_task s)"
  "trace (fold apply_write ws s) =
     (if ws = [] then trace s else case update_task s of None \<Rightarrow> trace s @ [EvSchedule (next_task s)] | Some t \<Rightarrow> trace s)"
  by (induction ws arbitrary: s; simp add: apply_write_sched split: option.splits)+


subsection \<open>The teardown loop\<close>

lemma item_destroy_frame [simp]:
  "tags (item_destroy old s) = tags s"
  "startag (item_destroy old s) = startag s"
  "tagged (item_destroy old s) = tagged s"
  "items (item_destroy old s) = items s"
  "parent (item_destroy old s) = parent s"
  "on_destroy (item_destroy old s) = on_destroy s"
  "destroyed (item_destroy old s) = insert old (destroyed s)"
  by (simp_all add: item_destroy_def)

lemma item_destroy_sched:
  "update_task (item_destroy old s) =
     (if on_destroy s old = [] then update_task s
      else Some (case update_task s of None \<Rightarrow> next_task s | Some t \<Rightarrow> t))"
  "queue (item_destroy old s) =
     (if on_destroy s old = [] then queue s
      else case update_task s of None \<Rightarrow> queue s @ [next_task s] | Some t \<Rightarrow> queue s)"
  "next_task (item_destroy old s) =
     (if on_destroy s old = [] then next_task s
      else case update_task s of None \<Rightarrow> Suc (next_task s) | Some t \<Rightarrow> next_task s)"
  "trace (item_destroy old s) =
     trace s @ EvDestroy old #
       (if on_destroy s old = [] then []
        else case update_task s of None \<Rightarrow> [EvSchedule (next_task s)] | Some t \<Rightarrow> [])"
  by (simp_all add: item_destroy_def writes_sched split: option.splits)

lemma destroy_items_frame [simp]:
  "tags (destroy_items xs s) = tags s"
  "startag (destroy_items xs s) = startag s"
  "tagged (destroy_items xs s) = tagged s"
  "items (destroy_items xs s) = items s"
  "parent (destroy_items xs s) = parent s"
  "on_destroy (destroy_items xs s) = on_destroy s"
  by (induction xs arbitrary: s; simp)+

lemma destroy_items_destroyed [simp]:
  "destroyed (destroy_items xs s) = destroyed s \<union> set xs"
  by (induction xs arbitrary: s) auto

lemma destroy_items_trace:
  "\<exists>evs. trace (destroy_items xs s) = trace s @ evs
     \<and> distinct (destroys_of evs) \<and> set (destroys_of evs) = set xs - destroyed s
     \<and> inserts_of evs = [] \<and> instantiations evs = 0 \<and> (\<forall>e \<in> set evs. \<not> is_insert e)"
proof (induction xs arbitrary: s)
  case Nil
  then show ?case by simp
next
  case (Cons old rest)
  show ?case
  proof (cases "old \<in> destroyed s")
    case True
    with Cons.IH [of s] show ?thesis by auto
  next
    case False
    obtain es where es: "trace (item_destroy old s) = trace s @ EvDestroy old # es"
      "destroys_of es = []" "inserts_of es = []" "instantiations es = 0" "\<forall>e \<in> set es. \<not> is_insert e"
      by (cases "update_task s"; cases "on_destroy s old = []"; simp add: item_destroy_sched)
    from Cons.IH [of "item_destroy old s"] obtain evs where evs:
      "trace (destroy_items rest (item_destroy old s)) = trace (item_destroy old s) @ evs"
      "distinct (destroys_of evs)" "set (destroys_of evs) = set rest - insert old (destroyed s)"
      "inserts_of evs = []" "instantiations evs = 0" "\<forall>e \<in> set evs. \<not> is_insert e"
      by auto
    let ?all = "EvDestroy old # es @ evs"
    have "trace (destroy_items (old # rest) s) = trace s @ ?all"
      using False es(1) evs(1) by simp
    moreover have "distinct (destroys_of ?all)"
      using es(2) evs(2,3) by simp
    moreover have "set (destroys_of ?all) = set (old # rest) - destroyed s"
      using False es(2) evs(3) by auto
    moreover have "inserts_of ?all = []" "instantiations ?all = 0" "\<forall>e \<in> set ?all. \<not> is_insert e"
      using es evs by auto
    ultimately show ?thesis by blast
  qed
qed

lemma destroy_items_sched_quiet:
  "\<forall>old \<in> set xs. old \<notin> destroyed s \<longrightarrow> on_destroy s old = [] \<Longrightarrow>
   update_task (destroy_items xs s) = update_task s
   \<and> queue (destroy_items xs s) = queue s
   \<and> next_task (destroy_items xs s) = next_task s"
proof (induction xs arbitrary: s)
  case Nil
  then show ?case by simp
next
  case (Cons old rest)
  show ?case
  proof (cases "old \<in> destroyed s")
    case True
    with Cons.prems Cons.IH [of s] show ?thesis by simp
  next
    case False
    with Cons.prems have q: "on_destroy s old = []" by simp
    have "\<forall>x \<in> set rest. x \<notin> destroyed (item_destroy old s) \<longrightarrow> on_destroy (item_destroy old s) x = []"
      using Cons.prems by simp
    from Cons.IH [OF this] False q show ?thesis by (simp add: item_destroy_sched)
  qed
qed

lemma destroy_items_pending_kept:
  "update_task s = Some t \<Longrightarrow>
   update_task (destroy_items xs s) = Some t
   \<and> queue (destroy_items xs s) = queue s
   \<and> next_task (destroy_items xs s) = next_task s"
proof (induction xs arbitrary: s)
  case Nil
  then show ?case by simp
next
  case (Cons old rest)
  have "update_task (item_destroy old s) = Some t" "queue (item_destroy old s) = queue s"
    "next_task (item_destroy old s) = next_task s"
    using Cons.prems by (simp_all add: item_destroy_sched)
  with Cons.IH [of "item_destroy old s"] Cons.IH [of s] Cons.prems show ?case by simp
qed

lemma destroy_items_sched_fires:
  "update_task s = None \<Longrightarrow> \<exists>old \<in> set xs. old \<notin> destroyed s \<and> on_destroy s old \<noteq> [] \<Longrightarrow>
   update_task (destroy_items xs s) = Some (next_task s)
   \<and> queue (destroy_items xs s) = queue s @ [next_task s]
   \<and> next_task (destroy_items xs s) = Suc (next_task s)"
proof (induction xs arbitrary: s)
  case Nil
  then show ?case by simp
next
  case (Cons old rest)
  show ?case
  proof (cases "old \<in> destroyed s")
    case True
    with Cons.prems Cons.IH [of s] show ?thesis by auto
  next
    case live: False
    show ?thesis
    proof (cases "on_destroy s old = []")
      case True
      have u: "update_task (item_destroy old s) = None" "next_task (item_destroy old s) = next_task s"
        "queue (item_destroy old s) = queue s"
        using True Cons.prems(1) by (simp_all add: item_destroy_sched)
      have "\<exists>x \<in> set rest. x \<notin> destroyed (item_destroy old s) \<and> on_destroy (item_destroy old s) x \<noteq> []"
        using True Cons.prems(2) by auto
      from Cons.IH [OF u(1) this] live u show ?thesis by simp
    next
      case False
      have u: "update_task (item_destroy old s) = Some (next_task s)"
        "next_task (item_destroy old s) = Suc (next_task s)"
        "queue (item_destroy old s) = queue s @ [next_task s]"
        using False Cons.prems(1) by (simp_all add: item_destroy_sched)
      from destroy_items_pending_kept [OF u(1), of rest] live u show ?thesis by simp
    qed
  qed
qed

lemma destroy_items_agrees:
  "pending_agrees s \<Longrightarrow> pending_agrees (destroy_items xs s)"
proof (induction xs arbitrary: s)
  case Nil
  then show ?case by simp
next
  case (Cons old rest)
  have "pending_agrees (item_destroy old s)"
    using Cons.prems by (auto simp: pending_agrees_def item_destroy_sched split: option.splits)
  with Cons.IH Cons.prems show ?case by simp
qed


subsection \<open>The steps of a refresh\<close>

lemma rebuild_tags_shape:
  "snd (rebuild_tags s) = s\<lparr>tagged := tagged (snd (rebuild_tags s))\<rparr>"
  by (simp add: rebuild_tags_def Let_def)

lemma rebuild_tags_frame [simp]:
  "base (snd (rebuild_tags s)) = base s"
  "args (snd (rebuild_tags s)) = args s"
  "data (snd (rebuild_tags s)) = data s"
  "tags (snd (rebuild_tags s)) = tags s"
  "startag (snd (rebuild_tags s)) = startag s"
  "update_task (snd (rebuild_tags s)) = update_task s"
  "items (snd (rebuild_tags s)) = items s"
  "parent (snd (rebuild_tags s)) = parent s"
  "destroyed (snd (rebuild_tags s)) = destroyed s"
  "queue (snd (rebuild_tags s)) = queue s"
  "next_task (snd (rebuild_tags s)) = next_task s"
  "on_destroy (snd (rebuild_tags s)) = on_destroy s"
  "trace (snd (rebuild_tags s)) = trace s"
  by (simp_all add: rebuild_tags_def Let_def)

lemma rebuild_tags_failed:
  "fst (rebuild_tags s) \<noteq> None \<Longrightarrow> snd (rebuild_tags s) = s"
  by (simp add: rebuild_tags_def Let_def split: if_splits)

lemma rebuild_tags_error_kind:
  "fst (rebuild_tags s) = Some e \<Longrightarrow> \<exists>msg. e = ValueError msg"
  by (auto simp: rebuild_tags_def Let_def split: if_splits)

lemma instantiate_clear [simp]:
  "instantiate b (s\<lparr>update_task := u\<rparr>) = instantiate b s"
  by (simp add: instantiate_def split: sum.splits)

lemma produce_clear:
  "produce (s\<lparr>update_task := None\<rparr>) =
     (fst (produce s),
      s\<lparr>update_task := None, trace := trace s @ (if base s = None then [] else [EvInstantiate])\<rparr>)"
  by (simp add: produce_def split: option.splits)

lemma refresh_raised_in_template:
  "fst (produce s) = Inl e \<Longrightarrow>
   refresh s =
     (Some e, s\<lparr>update_task := None, trace := trace s @ (if base s = None then [] else [EvInstantiate])\<rparr>)"
  by (simp add: refresh_def produce_clear)

lemma refresh_unfold:
  "fst (produce s) = Inr new \<Longrightarrow>
   refresh s =
     (let s3 = destroy_items (items s)
                 (s\<lparr>update_task := None,
                    trace := trace s @ (if base s = None then [] else [EvInstantiate])\<rparr>)
      in if new = [] then rebuild_tags (s3\<lparr>items := []\<rparr>)
         else case parent s of
                None \<Rightarrow> (Some (AttributeError no_insert_children), s3)
              | Some p \<Rightarrow> rebuild_tags (s3\<lparr>trace := trace s3 @ [EvInsert p new], items := new\<rparr>))"
  by (simp add: refresh_def produce_clear Let_def insert_children_def split: option.splits)


lemma events_since_append [simp]: "trace s' = trace s @ evs \<Longrightarrow> events_since s s' = evs"
  by (simp add: events_since_def)

lemma refresh_shape:
  assumes "fst (produce s) = Inr new"
  shows "\<exists>pre. trace (snd (refresh s)) =
           trace s @ pre @ (case parent s of Some p \<Rightarrow> if new = [] then [] else [EvInsert p new] | None \<Rightarrow> [])
         \<and> (\<forall>e \<in> set pre. \<not> is_insert e)
         \<and> distinct (destroys_of pre) \<and> set (destroys_of pre) = set (items s) - destroyed s
         \<and> instantiations pre = (if base s = None then 0 else 1)"
proof -
  let ?s2 = "s\<lparr>update_task := None, trace := trace s @ (if base s = None then [] else [EvInstantiate])\<rparr>"
  from destroy_items_trace [of "items s" ?s2] obtain evs where evs:
    "trace (destroy_items (items s) ?s2) = trace ?s2 @ evs"
    "distinct (destroys_of evs)" "set (destroys_of evs) = set (items s) - destroyed s"
    "instantiations evs = 0" "\<forall>e \<in> set evs. \<not> is_insert e"
    by auto
  let ?pre = "(if base s = None then [] else [EvInstantiate]) @ evs"
  have "trace (snd (refresh s)) =
           trace s @ ?pre @ (case parent s of Some p \<Rightarrow> if new = [] then [] else [EvInsert p new] | None \<Rightarrow> [])"
    using evs(1) by (auto simp: refresh_unfold [OF assms] Let_def split: option.splits)
  moreover have "\<forall>e \<in> set ?pre. \<not> is_insert e" using evs(5) by simp
  moreover have "distinct (destroys_of ?pre)" "set (destroys_of ?pre) = set (items s) - destroyed s"
    using evs(2,3) by simp_all
  moreover have "instantiations ?pre = (if base s = None then 0 else 1)" using evs(4) by simp
  ultimately show ?thesis by blast
qed

lemma refresh_destroyed:
  "fst (produce s) = Inr new \<Longrightarrow> destroyed (snd (refresh s)) = destroyed s \<union> set (items s)"
  by (simp add: refresh_unfold Let_def split: option.splits)

lemma refresh_items:
  "fst (produce s) = Inr new \<Longrightarrow>
   items (snd (refresh s)) = (if new \<noteq> [] \<and> parent s = None then items s else new)"
  by (simp add: refresh_unfold Let_def split: option.splits)

lemma refresh_fields [simp]:
  "tags (snd (refresh s)) = tags s"
  "startag (snd (refresh s)) = startag s"
  "parent (snd (refresh s)) = parent s"
  "on_destroy (snd (refresh s)) = on_destroy s"
proof -
  show "tags (snd (refresh s)) = tags s"
    by (cases "fst (produce s)")
       (simp_all add: refresh_unfold refresh_raised_in_template Let_def split: option.splits)
  show "startag (snd (refresh s)) = startag s"
    by (cases "fst (produce s)")
       (simp_all add: refresh_unfold refresh_raised_in_template Let_def split: option.splits)
  show "parent (snd (refresh s)) = parent s"
    by (cases "fst (produce s)")
       (simp_all add: refresh_unfold refresh_raised_in_template Let_def split: option.splits)
  show "on_destroy (snd (refresh s)) = on_destroy s"
    by (cases "fst (produce s)")
       (simp_all add: refresh_unfold refresh_raised_in_template Let_def split: option.splits)
qed

lemma rebuild_tags_reads:
  "tags a = tags b \<Longrightarrow> startag a = startag b \<Longrightarrow> items a = items b \<Longrightarrow> tagged a = tagged b \<Longrightarrow>
   fst (rebuild_tags a) = fst (rebuild_tags b)
   \<and> tagged (snd (rebuild_tags a)) = tagged (snd (rebuild_tags b))"
  by (simp add: rebuild_tags_def Let_def)

lemma refresh_error_cases:
  assumes "fst (produce s) = Inr new"
  shows "fst (refresh s) =
           (if new \<noteq> [] \<and> parent s = None
            then Some (AttributeError no_insert_children)
            else fst (rebuild_tags (s\<lparr>items := new\<rparr>)))
       \<and> tagged (snd (refresh s)) =
           (if new \<noteq> [] \<and> parent s = None then tagged s
            else tagged (snd (rebuild_tags (s\<lparr>items := new\<rparr>))))"
proof -
  let ?s3 = "destroy_items (items s)
               (s\<lparr>update_task := None, trace := trace s @ (if base s = None then [] else [EvInstantiate])\<rparr>)"
  show ?thesis
  proof (cases "new = []")
    case True
    with rebuild_tags_reads [of "?s3\<lparr>items := []\<rparr>" "s\<lparr>items := new\<rparr>"]
    show ?thesis by (simp add: refresh_unfold [OF assms] Let_def)
  next
    case False
    show ?thesis
    proof (cases "parent s")
      case None
      with False show ?thesis by (simp add: refresh_unfold [OF assms] Let_def)
    next
      case (Some p)
      with False
        rebuild_tags_reads [of "?s3\<lparr>trace := trace ?s3 @ [EvInsert p new], items := new\<rparr>" "s\<lparr>items := new\<rparr>"]
      show ?thesis by (simp add: refresh_unfold [OF assms] Let_def)
    qed
  qed
qed

lemma takeWhile_before_insert:
  "\<forall>e \<in> set pre. \<not> is_insert e \<Longrightarrow>
   takeWhile (\<lambda>e. \<not> is_insert e) (pre @ (case q of Some p \<Rightarrow> if new = [] then [] else [EvInsert p new] | None \<Rightarrow> []))
     = pre"
  by (cases q) (simp_all add: takeWhile_append2)

section \<open>A template that raises\<close>

text \<open>
  C3. If the two-stage call \<open>base(*args)(**data)\<close> raises during \<open>_refresh\<close>, no old item
  is destroyed, \<open>_items\<close> and \<open>tagged\<close> are exactly as they were before, and the error
  goes to the caller. The only change to the node is the cleared \<open>_update_task\<close>.
\<close>

theorem refresh_template_raises:
  assumes "base s = Some b" and "instantiate b s = Inl e"
  shows "fst (refresh s) = Some e
       \<and> items (snd (refresh s)) = items s
       \<and> tagged (snd (refresh s)) = tagged s
       \<and> destroyed (snd (refresh s)) = destroyed s
       \<and> destroys_of (events_since s (snd (refresh s))) = []
       \<and> inserts_of (events_since s (snd (refresh s))) = []
       \<and> snd (refresh s) = s\<lparr>update_task := None, trace := trace s @ [EvInstantiate]\<rparr>"
proof -
  from assms have "fst (produce s) = Inl e" by (simp add: produce_def)
  from refresh_raised_in_template [OF this] assms(1)
  have r: "refresh s = (Some e, s\<lparr>update_task := None, trace := trace s @ [EvInstantiate]\<rparr>)"
    by simp
  have "events_since s (snd (refresh s)) = [EvInstantiate]"
    by (simp add: r events_since_def)
  then show ?thesis by (simp add: r)
qed

theorem refresh_template_raises_witness:
  "base (fresh_node\<lparr>base := Some (\<lambda>a. Inr (\<lambda>d. Inl (OtherError ''boom''))),
                    tagged := [''a'' \<mapsto> Item 1], items := [1]\<rparr>)
     = Some (\<lambda>a. Inr (\<lambda>d. Inl (OtherError ''boom'')))
   \<and> instantiate (\<lambda>a. Inr (\<lambda>d. Inl (OtherError ''boom'')))
        (fresh_node\<lparr>base := Some (\<lambda>a. Inr (\<lambda>d. Inl (OtherError ''boom''))),
                    tagged := [''a'' \<mapsto> Item 1], items := [1]\<rparr>)
     = Inl (OtherError ''boom'')
   \<and> refresh (fresh_node\<lparr>base := Some (\<lambda>a. Inr (\<lambda>d. Inl (OtherError ''boom''))),
                    tagged := [''a'' \<mapsto> Item 1], items := [1]\<rparr>)
     = (Some (OtherError ''boom''),
        fresh_node\<lparr>base := Some (\<lambda>a. Inr (\<lambda>d. Inl (OtherError ''boom''))),
                    tagged := [''a'' \<mapsto> Item 1], items := [1], trace := [EvInstantiate]\<rparr>)"
proof -
  let ?b = "\<lambda>a :: pyval list. (Inr (\<lambda>d :: kwargs. (Inl (OtherError ''boom'') :: exn + obj list))
              :: exn + (kwargs \<Rightarrow> exn + obj list))"
  let ?s = "fresh_node\<lparr>base := Some ?b, tagged := [''a'' \<mapsto> Item 1], items := [1]\<rparr>"
  have h1: "base ?s = Some ?b" by simp
  have h2: "instantiate ?b ?s = Inl (OtherError ''boom'')" by (simp add: instantiate_def)
  note w = refresh_template_raises [OF h1 h2]
  from w have a: "fst (refresh ?s) = Some (OtherError ''boom'')" by blast
  from w have b: "snd (refresh ?s) = ?s\<lparr>update_task := None, trace := trace ?s @ [EvInstantiate]\<rparr>"
    by blast
  have "refresh ?s = (Some (OtherError ''boom''), ?s\<lparr>trace := [EvInstantiate]\<rparr>)"
    using a b by (simp add: prod_eq_iff fresh_node_def)
  with h1 h2 show ?thesis by blast
qed

section \<open>Teardown of the old items\<close>

text \<open>
  C5. In every refresh in which the template call succeeds, or \<open>base\<close> is \<open>None\<close>, every
  item of the current \<open>_items\<close> is destroyed afterwards; the refresh itself destroys
  exactly those that were not destroyed before, each once, so an item already destroyed
  is skipped; all of this precedes the insertion of the new items and does not depend
  on the new item list.
\<close>

theorem refresh_destroys_old_items:
  assumes "fst (produce s) = Inr new"
  shows "set (items s) \<subseteq> destroyed (snd (refresh s))
       \<and> distinct (destroys_of (events_since s (snd (refresh s))))
       \<and> set (destroys_of (events_since s (snd (refresh s)))) = set (items s) - destroyed s
       \<and> destroys_of (takeWhile (\<lambda>e. \<not> is_insert e) (events_since s (snd (refresh s))))
           = destroys_of (events_since s (snd (refresh s)))"
proof -
  let ?ins = "case parent s of Some p \<Rightarrow> if new = [] then [] else [EvInsert p new] | None \<Rightarrow> []"
  from refresh_shape [OF assms] obtain pre where pre:
    "trace (snd (refresh s)) = trace s @ pre @ ?ins"
    "\<forall>e \<in> set pre. \<not> is_insert e"
    "distinct (destroys_of pre)" "set (destroys_of pre) = set (items s) - destroyed s"
    by blast
  have ev: "events_since s (snd (refresh s)) = pre @ ?ins"
    using pre(1) by (simp add: events_since_def)
  have d: "destroys_of (pre @ ?ins) = destroys_of pre"
    by (simp split: option.splits)
  have "set (items s) \<subseteq> destroyed (snd (refresh s))"
    by (simp add: refresh_destroyed [OF assms])
  moreover have "distinct (destroys_of (events_since s (snd (refresh s))))"
    "set (destroys_of (events_since s (snd (refresh s)))) = set (items s) - destroyed s"
    using pre(3,4) by (simp_all only: ev d)
  moreover have "destroys_of (takeWhile (\<lambda>e. \<not> is_insert e) (events_since s (snd (refresh s))))
           = destroys_of (events_since s (snd (refresh s)))"
    by (simp only: ev d takeWhile_before_insert [OF pre(2)])
  ultimately show ?thesis by blast
qed

theorem refresh_destroys_old_items_witness:
  "fst (produce (fresh_node\<lparr>base := Some (\<lambda>a. Inr (\<lambda>d. Inr [7, 8])), parent := Some 100,
                             items := [4, 5, 4], destroyed := {5}\<rparr>)) = Inr [7, 8]
   \<and> {4, 5} \<subseteq> destroyed (snd (refresh (fresh_node\<lparr>base := Some (\<lambda>a. Inr (\<lambda>d. Inr [7, 8])),
                             parent := Some 100, items := [4, 5, 4], destroyed := {5}\<rparr>)))
   \<and> set (destroys_of (events_since
            (fresh_node\<lparr>base := Some (\<lambda>a. Inr (\<lambda>d. Inr [7, 8])), parent := Some 100,
                             items := [4, 5, 4], destroyed := {5}\<rparr>)
            (snd (refresh (fresh_node\<lparr>base := Some (\<lambda>a. Inr (\<lambda>d. Inr [7, 8])), parent := Some 100,
                             items := [4, 5, 4], destroyed := {5}\<rparr>))))) = {4}"
proof -
  let ?s = "fresh_node\<lparr>base := Some (\<lambda>a. Inr (\<lambda>d. Inr [7, 8])), parent := Some 100,
                             items := [4, 5, 4], destroyed := {5}\<rparr>"
  have h: "fst (produce ?s) = Inr [7, 8]" by (simp add: produce_def instantiate_def)
  have i: "set (items ?s) = {4, 5}" "set (items ?s) - destroyed ?s = {4}" by auto
  note w = refresh_destroys_old_items [OF h]
  note a = w [THEN conjunct1]
  note b = w [THEN conjunct2, THEN conjunct2, THEN conjunct1]
  show ?thesis
    by (intro conjI) (rule h, rule a [unfolded i(1)], rule b [unfolded i(2)])
qed

section \<open>Refresh without a template\<close>



section \<open>An arity error after a successful instantiation\<close>

text \<open>
  C8. When the template call of a refresh succeeds and the tag rebuild that follows
  raises its \<open>ValueError\<close>, \<open>_items\<close> is already the new item list while \<open>tagged\<close> is
  still the old map, the old items having been destroyed. \<open>tagged\<close> is replaced only by
  a rebuild that succeeds: a rebuild that changes the node, and a refresh that changes
  \<open>tagged\<close>, have not raised.
\<close>

theorem refresh_unpack_error:
  assumes "fst (produce s) = Inr new" and "fst (refresh s) = Some (ValueError msg)"
  shows "items (snd (refresh s)) = new
       \<and> tagged (snd (refresh s)) = tagged s
       \<and> set (items s) \<subseteq> destroyed (snd (refresh s))
       \<and> fst (rebuild_tags (s\<lparr>items := new\<rparr>)) = Some (ValueError msg)
       \<and> tags s \<noteq> []
       \<and> (length new < length (tags s) \<or> startag s = [] \<and> length (tags s) < length new)
       \<and> (\<forall>u. snd (rebuild_tags u) \<noteq> u \<longrightarrow> fst (rebuild_tags u) = None)
       \<and> (\<forall>u. tagged (snd (refresh u)) \<noteq> tagged u \<longrightarrow> fst (refresh u) = None)"
proof -
  note ec = refresh_error_cases [OF assms(1)]
  have np: "\<not> (new \<noteq> [] \<and> parent s = None)"
    using ec assms(2) by (auto split: if_splits)
  have rb: "fst (rebuild_tags (s\<lparr>items := new\<rparr>)) = Some (ValueError msg)"
    using ec np assms(2) by (auto split: if_splits)
  then have "fst (rebuild_tags (s\<lparr>items := new\<rparr>)) \<noteq> None" by simp
  from rebuild_tags_failed [OF this] have "tagged (snd (rebuild_tags (s\<lparr>items := new\<rparr>))) = tagged s"
    by simp
  with ec np have tg: "tagged (snd (refresh s)) = tagged s" by (auto split: if_splits)
  have it: "items (snd (refresh s)) = new"
    using np by (auto simp: refresh_items [OF assms(1)])
  have ds: "set (items s) \<subseteq> destroyed (snd (refresh s))"
    by (simp add: refresh_destroyed [OF assms(1)])
  have why: "tags s \<noteq> [] \<and> (length new < length (tags s) \<or> startag s = [] \<and> length (tags s) < length new)"
    using rb by (auto simp: rebuild_tags_def Let_def split: if_splits)
  have g1: "\<forall>u. snd (rebuild_tags u) \<noteq> u \<longrightarrow> fst (rebuild_tags u) = None"
    using rebuild_tags_failed by blast
  have g2: "\<forall>u. tagged (snd (refresh u)) \<noteq> tagged u \<longrightarrow> fst (refresh u) = None"
  proof (intro allI impI)
    fix u assume ch: "tagged (snd (refresh u)) \<noteq> tagged u"
    show "fst (refresh u) = None"
    proof (cases "fst (produce u)")
      case (Inl e)
      from refresh_raised_in_template [OF this] ch show ?thesis by simp
    next
      case (Inr xs)
      note e = refresh_error_cases [OF Inr]
      from e ch have q: "\<not> (xs \<noteq> [] \<and> parent u = None)" by (auto split: if_splits)
      show ?thesis
      proof (rule ccontr)
        assume "fst (refresh u) \<noteq> None"
        with e q have "fst (rebuild_tags (u\<lparr>items := xs\<rparr>)) \<noteq> None" by (auto split: if_splits)
        from rebuild_tags_failed [OF this] e q ch show False by (auto split: if_splits)
      qed
    qed
  qed
  from it tg ds rb why g1 g2 show ?thesis by blast
qed

theorem refresh_unpack_error_witness:
  "fst (produce (fresh_node\<lparr>base := Some (\<lambda>a. Inr (\<lambda>d. Inr [7, 8])), parent := Some 100,
                   tags := [''a'', ''b'', ''c''], tagged := [''x'' \<mapsto> Item 4], items := [4]\<rparr>))
     = Inr [7, 8]
   \<and> fst (refresh (fresh_node\<lparr>base := Some (\<lambda>a. Inr (\<lambda>d. Inr [7, 8])), parent := Some 100,
                   tags := [''a'', ''b'', ''c''], tagged := [''x'' \<mapsto> Item 4], items := [4]\<rparr>))
     = Some (ValueError ''need more than 2 values to unpack'')
   \<and> items (snd (refresh (fresh_node\<lparr>base := Some (\<lambda>a. Inr (\<lambda>d. Inr [7, 8])), parent := Some 100,
                   tags := [''a'', ''b'', ''c''], tagged := [''x'' \<mapsto> Item 4], items := [4]\<rparr>)))
     = [7, 8]
   \<and> tagged (snd (refresh (fresh_node\<lparr>base := Some (\<lambda>a. Inr (\<lambda>d. Inr [7, 8])), parent := Some 100,
                   tags := [''a'', ''b'', ''c''], tagged := [''x'' \<mapsto> Item 4], items := [4]\<rparr>)))
     = [''x'' \<mapsto> Item 4]
   \<and> {4} \<subseteq> destroyed (snd (refresh (fresh_node\<lparr>base := Some (\<lambda>a. Inr (\<lambda>d. Inr [7, 8])),
                   parent := Some 100, tags := [''a'', ''b'', ''c''], tagged := [''x'' \<mapsto> Item 4],
                   items := [4]\<rparr>)))"
proof -
  let ?s = "fresh_node\<lparr>base := Some (\<lambda>a. Inr (\<lambda>d. Inr [7, 8])), parent := Some 100,
                   tags := [''a'', ''b'', ''c''], tagged := [''x'' \<mapsto> Item 4], items := [4]\<rparr>"
  have h: "fst (produce ?s) = Inr [7, 8]" by (simp add: produce_def instantiate_def)
  have k: "fst (refresh ?s) = Some (ValueError ''need more than 2 values to unpack'')"
    by (simp add: refresh_def produce_def instantiate_def item_destroy_def insert_children_def
          rebuild_tags_def Let_def show_nat.simps digit_char_def fresh_node_def)
  have i: "tagged ?s = [''x'' \<mapsto> Item 4]" "set (items ?s) = {4}" by simp_all
  note w = refresh_unpack_error [OF h k]
  note a = w [THEN conjunct1]
  note b = w [THEN conjunct2, THEN conjunct1]
  note c = w [THEN conjunct2, THEN conjunct2, THEN conjunct1]
  show ?thesis
    by (intro conjI) (rule h, rule k, rule a, rule b [unfolded i(1)], rule c [unfolded i(2)])
qed

section \<open>The parent and the new item list\<close>

text \<open>
  Everything a refresh does before and after the insertion commutes with an assignment
  to \<open>parent\<close>.
\<close>

lemma parent_outward:
  "s\<lparr>parent := p, base := b\<rparr> = s\<lparr>base := b, parent := p\<rparr>"
  "s\<lparr>parent := p, args := a\<rparr> = s\<lparr>args := a, parent := p\<rparr>"
  "s\<lparr>parent := p, data := d\<rparr> = s\<lparr>data := d, parent := p\<rparr>"
  "s\<lparr>parent := p, destroyed := ds\<rparr> = s\<lparr>destroyed := ds, parent := p\<rparr>"
  "s\<lparr>parent := p, trace := tr\<rparr> = s\<lparr>trace := tr, parent := p\<rparr>"
  "s\<lparr>parent := p, update_task := u\<rparr> = s\<lparr>update_task := u, parent := p\<rparr>"
  "s\<lparr>parent := p, items := xs\<rparr> = s\<lparr>items := xs, parent := p\<rparr>"
  by simp_all

lemma schedule_refresh_parent:
  "schedule_refresh c (s\<lparr>parent := p\<rparr>) = (schedule_refresh c s)\<lparr>parent := p\<rparr>"
  by (simp add: schedule_refresh_def schedule_def)

lemma apply_write_parent:
  "apply_write w (s\<lparr>parent := p\<rparr>) = (apply_write w s)\<lparr>parent := p\<rparr>"
  by (cases w) (simp_all add: schedule_refresh_parent parent_outward)

lemma writes_parent:
  "fold apply_write ws (s\<lparr>parent := p\<rparr>) = (fold apply_write ws s)\<lparr>parent := p\<rparr>"
  by (induction ws arbitrary: s) (simp_all add: apply_write_parent)

lemma item_destroy_parent:
  "item_destroy old (s\<lparr>parent := p\<rparr>) = (item_destroy old s)\<lparr>parent := p\<rparr>"
  by (simp add: item_destroy_def writes_parent parent_outward)

lemma destroy_items_parent:
  "destroy_items xs (s\<lparr>parent := p\<rparr>) = (destroy_items xs s)\<lparr>parent := p\<rparr>"
  by (induction xs arbitrary: s) (simp_all add: item_destroy_parent)

lemma rebuild_tags_parent:
  "rebuild_tags (s\<lparr>parent := p\<rparr>) = (fst (rebuild_tags s), (snd (rebuild_tags s))\<lparr>parent := p\<rparr>)"
  by (simp add: rebuild_tags_def Let_def)

lemma produce_parent:
  "fst (produce (s\<lparr>parent := p\<rparr>)) = fst (produce s)"
  by (simp add: produce_def instantiate_def split: option.splits sum.splits)

lemma refresh_parent_unused:
  assumes "fst (produce s) = Inr []"
  shows "refresh (s\<lparr>parent := p\<rparr>) = (fst (refresh s), (snd (refresh s))\<lparr>parent := p\<rparr>)"
proof -
  let ?s2 = "s\<lparr>update_task := None, trace := trace s @ (if base s = None then [] else [EvInstantiate])\<rparr>"
  from assms have q: "fst (produce (s\<lparr>parent := p\<rparr>)) = Inr []" by (simp add: produce_parent)
  have "refresh (s\<lparr>parent := p\<rparr>) = rebuild_tags ((destroy_items (items s) (?s2\<lparr>parent := p\<rparr>))\<lparr>items := []\<rparr>)"
    by (simp add: refresh_unfold [OF q] Let_def parent_outward)
  also have "\<dots> = rebuild_tags (((destroy_items (items s) ?s2)\<lparr>items := []\<rparr>)\<lparr>parent := p\<rparr>)"
    by (simp add: destroy_items_parent parent_outward)
  also have "\<dots> = (fst (refresh s), (snd (refresh s))\<lparr>parent := p\<rparr>)"
    by (simp add: rebuild_tags_parent refresh_unfold [OF assms] Let_def)
  finally show ?thesis .
qed

text \<open>
  C10, as stated, fails: with an empty new item list the refresh need not complete
  successfully, on a node without a parent or on any other. With \<open>base\<close> equal to
  \<open>None\<close> and one name in \<open>tags\<close> the tag rebuild raises.
\<close>

theorem refresh_parent_access_counterexample:
  "fst (produce (fresh_node\<lparr>tags := [''a'']\<rparr>)) = Inr []
   \<and> base (fresh_node\<lparr>tags := [''a'']\<rparr>) = None
   \<and> parent (fresh_node\<lparr>tags := [''a'']\<rparr>) = None
   \<and> fst (refresh (fresh_node\<lparr>tags := [''a'']\<rparr>))
       = Some (ValueError ''need more than 0 values to unpack'')
   \<and> fst (refresh (fresh_node\<lparr>tags := [''a'']\<rparr>)) \<noteq> None"
  by (simp add: refresh_def produce_def rebuild_tags_def Let_def show_nat.simps digit_char_def
        fresh_node_def)

text \<open>
  C10, amended. In every refresh whose new item list is empty, in particular whenever
  \<open>base\<close> is \<open>None\<close>, the parent is never accessed: no insertion is made and the refresh
  does on a node with any parent, or none, what it does on this one, so a missing
  parent never makes it fail; it completes successfully when \<open>tags\<close> is empty. The
  \<open>AttributeError\<close> of a missing parent is raised exactly when the new item list is not
  empty and the parent is \<open>None\<close>, and then the old items have already been destroyed,
  while \<open>_items\<close> and \<open>tagged\<close> are still the old ones.
\<close>

theorem refresh_parent_access:
  assumes "fst (produce s) = Inr new"
  shows "(new = [] \<longrightarrow>
            inserts_of (events_since s (snd (refresh s))) = []
          \<and> (\<forall>p. refresh (s\<lparr>parent := p\<rparr>) = (fst (refresh s), (snd (refresh s))\<lparr>parent := p\<rparr>))
          \<and> (tags s = [] \<longrightarrow> fst (refresh s) = None))
       \<and> ((\<exists>m. fst (refresh s) = Some (AttributeError m)) \<longleftrightarrow> new \<noteq> [] \<and> parent s = None)
       \<and> (new \<noteq> [] \<and> parent s = None \<longrightarrow>
            set (items s) \<subseteq> destroyed (snd (refresh s))
          \<and> set (destroys_of (events_since s (snd (refresh s)))) = set (items s) - destroyed s
          \<and> items (snd (refresh s)) = items s
          \<and> tagged (snd (refresh s)) = tagged s)"
proof -
  note ec = refresh_error_cases [OF assms]
  let ?ins = "case parent s of Some p \<Rightarrow> if new = [] then [] else [EvInsert p new] | None \<Rightarrow> []"
  from refresh_shape [OF assms] obtain pre where pre:
    "trace (snd (refresh s)) = trace s @ pre @ ?ins"
    "\<forall>e \<in> set pre. \<not> is_insert e" "set (destroys_of pre) = set (items s) - destroyed s"
    by blast
  have ev: "events_since s (snd (refresh s)) = pre @ ?ins"
    using pre(1) by (simp add: events_since_def)
  have noins: "inserts_of pre = []"
    using pre(2) by (induction pre) (auto simp: is_insert_def split: event.splits)
  have a: "new = [] \<longrightarrow>
            inserts_of (events_since s (snd (refresh s))) = []
          \<and> (\<forall>p. refresh (s\<lparr>parent := p\<rparr>) = (fst (refresh s), (snd (refresh s))\<lparr>parent := p\<rparr>))
          \<and> (tags s = [] \<longrightarrow> fst (refresh s) = None)"
  proof
    assume n: "new = []"
    have "inserts_of (events_since s (snd (refresh s))) = []"
      using n noins by (simp add: ev split: option.splits)
    moreover have "\<forall>p. refresh (s\<lparr>parent := p\<rparr>) = (fst (refresh s), (snd (refresh s))\<lparr>parent := p\<rparr>)"
      using assms n refresh_parent_unused by blast
    moreover have "tags s = [] \<longrightarrow> fst (refresh s) = None"
      using ec n by (simp add: rebuild_tags_def Let_def)
    ultimately show "inserts_of (events_since s (snd (refresh s))) = []
          \<and> (\<forall>p. refresh (s\<lparr>parent := p\<rparr>) = (fst (refresh s), (snd (refresh s))\<lparr>parent := p\<rparr>))
          \<and> (tags s = [] \<longrightarrow> fst (refresh s) = None)" by blast
  qed
  have b: "(\<exists>m. fst (refresh s) = Some (AttributeError m)) \<longleftrightarrow> new \<noteq> [] \<and> parent s = None"
  proof
    assume "\<exists>m. fst (refresh s) = Some (AttributeError m)"
    then obtain m where m: "fst (refresh s) = Some (AttributeError m)" ..
    show "new \<noteq> [] \<and> parent s = None"
    proof (rule ccontr)
      assume "\<not> (new \<noteq> [] \<and> parent s = None)"
      with ec m have "fst (rebuild_tags (s\<lparr>items := new\<rparr>)) = Some (AttributeError m)"
        by (auto split: if_splits)
      from rebuild_tags_error_kind [OF this] show False by simp
    qed
  next
    assume "new \<noteq> [] \<and> parent s = None"
    with ec show "\<exists>m. fst (refresh s) = Some (AttributeError m)" by simp
  qed
  have c: "new \<noteq> [] \<and> parent s = None \<longrightarrow>
            set (items s) \<subseteq> destroyed (snd (refresh s))
          \<and> set (destroys_of (events_since s (snd (refresh s)))) = set (items s) - destroyed s
          \<and> items (snd (refresh s)) = items s
          \<and> tagged (snd (refresh s)) = tagged s"
    using ec pre(3) by (simp add: ev refresh_destroyed [OF assms] refresh_items [OF assms])
  from a b c show ?thesis by blast
qed

theorem refresh_parent_access_witness:
  "fst (produce (fresh_node\<lparr>items := [4]\<rparr>)) = Inr []
   \<and> parent (fresh_node\<lparr>items := [4]\<rparr>) = None
   \<and> fst (refresh (fresh_node\<lparr>items := [4]\<rparr>)) = None
   \<and> fst (produce (fresh_node\<lparr>base := Some (\<lambda>a. Inr (\<lambda>d. Inr [7])), items := [4]\<rparr>)) = Inr [7]
   \<and> parent (fresh_node\<lparr>base := Some (\<lambda>a. Inr (\<lambda>d. Inr [7])), items := [4]\<rparr>) = None
   \<and> {4} \<subseteq> destroyed (snd (refresh (fresh_node\<lparr>base := Some (\<lambda>a. Inr (\<lambda>d. Inr [7])), items := [4]\<rparr>)))
   \<and> items (snd (refresh (fresh_node\<lparr>base := Some (\<lambda>a. Inr (\<lambda>d. Inr [7])), items := [4]\<rparr>))) = [4]"
proof -
  let ?s = "fresh_node\<lparr>items := [4]\<rparr>"
  let ?t = "fresh_node\<lparr>base := Some (\<lambda>a. Inr (\<lambda>d. Inr [7])), items := [4]\<rparr>"
  have h: "fst (produce ?s) = Inr []" by (simp add: produce_def fresh_node_def)
  have hs: "parent ?s = None" "tags ?s = []" by (simp_all add: fresh_node_def)
  have k: "fst (produce ?t) = Inr [7]" by (simp add: produce_def instantiate_def)
  have kt: "parent ?t = None" "[7] \<noteq> ([] :: obj list)" by (simp_all add: fresh_node_def)
  have i: "set (items ?t) = {4}" "items ?t = [4]" by simp_all
  from refresh_parent_access [OF h] hs(2) have a: "fst (refresh ?s) = None" by blast
  from refresh_parent_access [OF k] kt
  have "set (items ?t) \<subseteq> destroyed (snd (refresh ?t))" "items (snd (refresh ?t)) = items ?t"
    by blast+
  then have b: "{4} \<subseteq> destroyed (snd (refresh ?t))" "items (snd (refresh ?t)) = [4]"
    by simp_all
  show ?thesis
    by (intro conjI) (rule h, rule hs(1), rule a, rule k, rule kt(1), rule b(1), rule b(2))
qed

section \<open>A change of the tag names\<close>

lemma events_since_same [simp]: "trace s' = trace s \<Longrightarrow> events_since s s' = []"
  by (simp add: events_since_def)

text \<open>
  C7. A value-replacing change to \<open>tags\<close> or to \<open>startag\<close> runs \<open>_rebuild_tags\<close> at once on
  the current \<open>_items\<close>, and nothing else changes: no call is made on a collaborator (no
  template call, no destroy, no insertion), \<open>_items\<close> and the destruction flags are as
  before, and the node differs from the one with the new name only in \<open>tagged\<close>, which
  is the old map when the rebuild raises.
\<close>

theorem tag_change_rebuilds_only:
  "set_tags v s = rebuild_tags (s\<lparr>tags := v\<rparr>)
   \<and> set_startag w s = rebuild_tags (s\<lparr>startag := w\<rparr>)
   \<and> snd (set_tags v s) = s\<lparr>tags := v, tagged := tagged (snd (set_tags v s))\<rparr>
   \<and> snd (set_startag w s) = s\<lparr>startag := w, tagged := tagged (snd (set_startag w s))\<rparr>
   \<and> events_since s (snd (set_tags v s)) = []
   \<and> events_since s (snd (set_startag w s)) = []
   \<and> items (snd (set_tags v s)) = items s
   \<and> items (snd (set_startag w s)) = items s
   \<and> destroyed (snd (set_tags v s)) = destroyed s
   \<and> destroyed (snd (set_startag w s)) = destroyed s
   \<and> (fst (set_tags v s) \<noteq> None \<longrightarrow> tagged (snd (set_tags v s)) = tagged s)
   \<and> (fst (set_startag w s) \<noteq> None \<longrightarrow> tagged (snd (set_startag w s)) = tagged s)
   \<and> (fst (set_tags v s) = None \<and> startag s \<noteq> [] \<longrightarrow>
        tagged (snd (set_tags v s)) (startag s) = Some (Items (drop (length v) (items s))))
   \<and> (fst (set_startag w s) = None \<and> w \<noteq> [] \<longrightarrow>
        tagged (snd (set_startag w s)) w = Some (Items (drop (length (tags s)) (items s))))"
proof -
  have t: "set_tags v s = rebuild_tags (s\<lparr>tags := v\<rparr>)"
    by (simp add: set_tags_def update_tags_def)
  have u: "set_startag w s = rebuild_tags (s\<lparr>startag := w\<rparr>)"
    by (simp add: set_startag_def update_tags_def)
  have t1: "snd (set_tags v s) = s\<lparr>tags := v, tagged := tagged (snd (set_tags v s))\<rparr>"
    unfolding t using rebuild_tags_shape [of "s\<lparr>tags := v\<rparr>"] by simp
  have u1: "snd (set_startag w s) = s\<lparr>startag := w, tagged := tagged (snd (set_startag w s))\<rparr>"
    unfolding u using rebuild_tags_shape [of "s\<lparr>startag := w\<rparr>"] by simp
  have t2: "fst (set_tags v s) \<noteq> None \<longrightarrow> tagged (snd (set_tags v s)) = tagged s"
    unfolding t using rebuild_tags_failed [of "s\<lparr>tags := v\<rparr>"] by auto
  have u2: "fst (set_startag w s) \<noteq> None \<longrightarrow> tagged (snd (set_startag w s)) = tagged s"
    unfolding u using rebuild_tags_failed [of "s\<lparr>startag := w\<rparr>"] by auto
  have t3: "fst (set_tags v s) = None \<and> startag s \<noteq> [] \<longrightarrow>
        tagged (snd (set_tags v s)) (startag s) = Some (Items (drop (length v) (items s)))"
    unfolding t by (simp add: rebuild_tags_def Let_def split: if_splits)
  have u3: "fst (set_startag w s) = None \<and> w \<noteq> [] \<longrightarrow>
        tagged (snd (set_startag w s)) w = Some (Items (drop (length (tags s)) (items s)))"
    unfolding u by (simp add: rebuild_tags_def Let_def split: if_splits)
  have f: "events_since s (snd (set_tags v s)) = []" "events_since s (snd (set_startag w s)) = []"
    "items (snd (set_tags v s)) = items s" "items (snd (set_startag w s)) = items s"
    "destroyed (snd (set_tags v s)) = destroyed s" "destroyed (snd (set_startag w s)) = destroyed s"
    by (simp_all add: t u)
  from t u t1 u1 t2 u2 t3 u3 f show ?thesis by blast
qed

theorem tag_change_rebuilds_only_witness:
  "fst (set_tags [''a''] (fresh_node\<lparr>startag := ''rest'', items := [1, 2]\<rparr>)) = None
   \<and> startag (fresh_node\<lparr>startag := ''rest'', items := [1, 2]\<rparr>) \<noteq> []
   \<and> tagged (snd (set_tags [''a''] (fresh_node\<lparr>startag := ''rest'', items := [1, 2]\<rparr>))) ''rest''
       = Some (Items [2])
   \<and> items (snd (set_tags [''a''] (fresh_node\<lparr>startag := ''rest'', items := [1, 2]\<rparr>))) = [1, 2]"
proof -
  let ?s = "fresh_node\<lparr>startag := ''rest'', items := [1, 2]\<rparr>"
  have h: "fst (set_tags [''a''] ?s) = None"
    by (simp add: set_tags_def update_tags_def rebuild_tags_def Let_def fresh_node_def)
  have k: "startag ?s \<noteq> []" by simp
  have i: "startag ?s = ''rest''" "drop (length [''a'']) (items ?s) = [2]" "items ?s = [1, 2]"
    by simp_all
  note w = tag_change_rebuilds_only [of "[''a'']" ?s "''x''"]
  from w h k have "tagged (snd (set_tags [''a''] ?s)) (startag ?s)
       = Some (Items (drop (length [''a'']) (items ?s)))" by blast
  then have a: "tagged (snd (set_tags [''a''] ?s)) ''rest'' = Some (Items [2])" by simp
  from w have "items (snd (set_tags [''a''] ?s)) = items ?s" by blast
  then have b: "items (snd (set_tags [''a''] ?s)) = [1, 2]" by simp
  show ?thesis by (intro conjI) (rule h, rule k, rule a, rule b)
qed

section \<open>Destruction releases the node's references\<close>

text \<open>
  C9. \<open>destroy\<close> releases \<open>data\<close>, \<open>tagged\<close> and \<open>_items\<close>, and when a refresh task is
  pending it unschedules that very task and then drops the handle; the produced items
  are not destroyed by it. On a node whose queue holds what \<open>_update_task\<close> records,
  nothing is left to run afterwards, so no refresh runs on the destroyed node.
\<close>

theorem destroy_releases:
  "data (destroy s) = Map.empty
   \<and> tagged (destroy s) = Map.empty
   \<and> items (destroy s) = []
   \<and> update_task (destroy s) = None
   \<and> destroyed (destroy s) = destroyed s
   \<and> (\<forall>t. update_task s = Some t \<longrightarrow>
         events_since s (destroy s) = [EvSuperDestroy, EvUnschedule t] \<and> t \<notin> set (queue (destroy s)))
   \<and> (update_task s = None \<longrightarrow>
         events_since s (destroy s) = [EvSuperDestroy] \<and> queue (destroy s) = queue s)
   \<and> (pending_agrees s \<longrightarrow>
         queue (destroy s) = [] \<and> pending_agrees (destroy s) \<and> run_next (destroy s) = (None, destroy s))"
proof -
  have n: "\<And>u. schedule_refresh Delete u = u"
    by (simp add: schedule_refresh_pending)
  have a: "data (destroy s) = Map.empty" "tagged (destroy s) = Map.empty" "items (destroy s) = []"
    "update_task (destroy s) = None" "destroyed (destroy s) = destroyed s"
    by (simp_all add: destroy_def n super_destroy_def unschedule_def Let_def split: option.splits)
  have b: "\<forall>t. update_task s = Some t \<longrightarrow>
         events_since s (destroy s) = [EvSuperDestroy, EvUnschedule t] \<and> t \<notin> set (queue (destroy s))"
    by (simp add: destroy_def n super_destroy_def unschedule_def Let_def events_since_def)
  have c: "update_task s = None \<longrightarrow>
         events_since s (destroy s) = [EvSuperDestroy] \<and> queue (destroy s) = queue s"
    by (simp add: destroy_def n super_destroy_def unschedule_def Let_def events_since_def)
  have q: "pending_agrees s \<longrightarrow> queue (destroy s) = []"
    by (auto simp: pending_agrees_def destroy_def n super_destroy_def unschedule_def Let_def
          split: option.splits)
  have d: "pending_agrees s \<longrightarrow>
         queue (destroy s) = [] \<and> pending_agrees (destroy s) \<and> run_next (destroy s) = (None, destroy s)"
    using q a(4) by (simp add: pending_agrees_def run_next_def)
  from a b c d show ?thesis by blast
qed

theorem destroy_releases_witness:
  "update_task (fresh_node\<lparr>update_task := Some 3, queue := [3], items := [1], data := [''k'' \<mapsto> PyInt 1],
                  tagged := [''a'' \<mapsto> Item 1]\<rparr>) = Some 3
   \<and> pending_agrees (fresh_node\<lparr>update_task := Some 3, queue := [3], items := [1],
                  data := [''k'' \<mapsto> PyInt 1], tagged := [''a'' \<mapsto> Item 1]\<rparr>)
   \<and> events_since (fresh_node\<lparr>update_task := Some 3, queue := [3], items := [1],
                  data := [''k'' \<mapsto> PyInt 1], tagged := [''a'' \<mapsto> Item 1]\<rparr>)
        (destroy (fresh_node\<lparr>update_task := Some 3, queue := [3], items := [1],
                  data := [''k'' \<mapsto> PyInt 1], tagged := [''a'' \<mapsto> Item 1]\<rparr>))
       = [EvSuperDestroy, EvUnschedule 3]
   \<and> queue (destroy (fresh_node\<lparr>update_task := Some 3, queue := [3], items := [1],
                  data := [''k'' \<mapsto> PyInt 1], tagged := [''a'' \<mapsto> Item 1]\<rparr>)) = []"
proof -
  let ?s = "fresh_node\<lparr>update_task := Some 3, queue := [3], items := [1], data := [''k'' \<mapsto> PyInt 1],
                  tagged := [''a'' \<mapsto> Item 1]\<rparr>"
  have h: "update_task ?s = Some 3" by simp
  have k: "pending_agrees ?s" by (simp add: pending_agrees_def)
  note w = destroy_releases [of ?s]
  from w h have a: "events_since ?s (destroy ?s) = [EvSuperDestroy, EvUnschedule 3]" by blast
  from w k have b: "queue (destroy ?s) = []" by blast
  show ?thesis by (intro conjI) (rule h, rule k, rule a, rule b)
qed

section \<open>Coalescing of refreshes\<close>

lemma refresh_sched:
  assumes "fst (produce s) = Inr new"
  shows "update_task (snd (refresh s)) =
           update_task (destroy_items (items s)
             (s\<lparr>update_task := None, trace := trace s @ (if base s = None then [] else [EvInstantiate])\<rparr>))"
    and "queue (snd (refresh s)) =
           queue (destroy_items (items s)
             (s\<lparr>update_task := None, trace := trace s @ (if base s = None then [] else [EvInstantiate])\<rparr>))"
    and "next_task (snd (refresh s)) =
           next_task (destroy_items (items s)
             (s\<lparr>update_task := None, trace := trace s @ (if base s = None then [] else [EvInstantiate])\<rparr>))"
  by (simp_all add: refresh_unfold [OF assms] Let_def split: option.splits)

lemma refresh_trace:
  assumes "fst (produce s) = Inr new"
  shows "trace (snd (refresh s)) =
           trace (destroy_items (items s)
             (s\<lparr>update_task := None, trace := trace s @ (if base s = None then [] else [EvInstantiate])\<rparr>))
           @ (case parent s of Some p \<Rightarrow> if new = [] then [] else [EvInsert p new] | None \<Rightarrow> [])"
  by (simp add: refresh_unfold [OF assms] Let_def split: option.splits)

lemma destroy_items_schedules:
  "\<exists>evs. trace (destroy_items xs u) = trace u @ evs
       \<and> queue (destroy_items xs u) = queue u @ schedules_of evs"
proof (induction xs arbitrary: u)
  case Nil
  then show ?case by simp
next
  case (Cons old rest)
  show ?case
  proof (cases "old \<in> destroyed u")
    case True
    with Cons.IH [of u] show ?thesis by simp
  next
    case False
    obtain es where es: "trace (item_destroy old u) = trace u @ es"
      "queue (item_destroy old u) = queue u @ schedules_of es"
      by (cases "update_task u"; cases "on_destroy u old = []"; simp add: item_destroy_sched)
    from Cons.IH [of "item_destroy old u"] obtain evs where evs:
      "trace (destroy_items rest (item_destroy old u)) = trace (item_destroy old u) @ evs"
      "queue (destroy_items rest (item_destroy old u)) = queue (item_destroy old u) @ schedules_of evs"
      by blast
    have "trace (destroy_items (old # rest) u) = trace u @ (es @ evs)"
      "queue (destroy_items (old # rest) u) = queue u @ schedules_of (es @ evs)"
      using False es evs by simp_all
    then show ?thesis by blast
  qed
qed

lemma refresh_agrees:
  assumes "queue s = []"
  shows "pending_agrees (snd (refresh s))"
proof (cases "fst (produce s)")
  case (Inl e)
  from refresh_raised_in_template [OF this] assms show ?thesis
    by (simp add: pending_agrees_def)
next
  case (Inr new)
  let ?s2 = "s\<lparr>update_task := None, trace := trace s @ (if base s = None then [] else [EvInstantiate])\<rparr>"
  have "pending_agrees ?s2" using assms by (simp add: pending_agrees_def)
  from destroy_items_agrees [OF this, of "items s"] refresh_sched(1,2) [OF Inr]
  show ?thesis by (simp add: pending_agrees_def)
qed

lemma apply_write_agrees:
  "pending_agrees s \<Longrightarrow> pending_agrees (apply_write w s)"
  by (auto simp: pending_agrees_def apply_write_sched split: option.splits)

lemma do_action_agrees:
  assumes "pending_agrees s"
  shows "pending_agrees (do_action a s)"
proof (cases a)
  case (Change w)
  with assms show ?thesis by (simp add: apply_write_agrees)
next
  case Tick
  show ?thesis
  proof (cases "queue s")
    case Nil
    with Tick assms show ?thesis by (simp add: run_next_def)
  next
    case (Cons t rest)
    with assms have "rest = []" by (auto simp: pending_agrees_def split: option.splits)
    with Cons Tick refresh_agrees [of "s\<lparr>queue := []\<rparr>"] show ?thesis
      by (simp add: run_next_def)
  qed
qed

lemma actions_agree:
  "pending_agrees s \<Longrightarrow> pending_agrees (fold do_action acts s)"
  by (induction acts arbitrary: s) (simp_all add: do_action_agrees)

lemma agrees_short: "pending_agrees s \<Longrightarrow> length (queue s) \<le> 1"
  by (simp add: pending_agrees_def split: option.splits)

lemma refresh_clears_first:
  "refresh (s\<lparr>update_task := None\<rparr>) = refresh s"
  by (simp add: refresh_def)

lemma refresh_handle_raised:
  "fst (produce s) = Inl e \<Longrightarrow>
   update_task (snd (refresh s)) = None \<and> queue (snd (refresh s)) = queue s
   \<and> schedules_of (events_since s (snd (refresh s))) = []"
  by (simp add: refresh_raised_in_template events_since_def)

lemma refresh_handle_quiet:
  assumes p: "fst (produce s) = Inr new"
    and quiet: "\<forall>old \<in> set (items s). old \<notin> destroyed s \<longrightarrow> on_destroy s old = []"
  shows "update_task (snd (refresh s)) = None \<and> queue (snd (refresh s)) = queue s
         \<and> schedules_of (events_since s (snd (refresh s))) = []"
proof -
  let ?s2 = "s\<lparr>update_task := None, trace := trace s @ (if base s = None then [] else [EvInstantiate])\<rparr>"
  from quiet have "\<forall>old \<in> set (items s). old \<notin> destroyed ?s2 \<longrightarrow> on_destroy ?s2 old = []"
    by simp
  from destroy_items_sched_quiet [OF this] refresh_sched [OF p]
  have uq: "update_task (snd (refresh s)) = None" "queue (snd (refresh s)) = queue s"
    by simp_all
  from destroy_items_schedules [of "items s" ?s2] obtain evs where evs:
    "trace (destroy_items (items s) ?s2) = trace ?s2 @ evs"
    "queue (destroy_items (items s) ?s2) = queue ?s2 @ schedules_of evs"
    by blast
  from evs(2) uq(2) refresh_sched(2) [OF p] have sch: "schedules_of evs = []"
    by simp
  have "trace (snd (refresh s)) = trace s @ (if base s = None then [] else [EvInstantiate]) @ evs
          @ (case parent s of Some p \<Rightarrow> if new = [] then [] else [EvInsert p new] | None \<Rightarrow> [])"
    using evs(1) by (simp add: refresh_trace [OF p])
  then have "events_since s (snd (refresh s)) = (if base s = None then [] else [EvInstantiate]) @ evs
          @ (case parent s of Some p \<Rightarrow> if new = [] then [] else [EvInsert p new] | None \<Rightarrow> [])"
    by (simp add: events_since_def)
  then have "schedules_of (events_since s (snd (refresh s))) = []"
    using sch by (simp split: option.splits)
  with uq show ?thesis by simp
qed

lemma refresh_handle_fires:
  assumes p: "fst (produce s) = Inr new"
    and fires: "\<exists>old \<in> set (items s). old \<notin> destroyed s \<and> on_destroy s old \<noteq> []"
  shows "update_task (snd (refresh s)) = Some (next_task s)
         \<and> queue (snd (refresh s)) = queue s @ [next_task s]
         \<and> schedules_of (events_since s (snd (refresh s))) = [next_task s]"
proof -
  let ?s2 = "s\<lparr>update_task := None, trace := trace s @ (if base s = None then [] else [EvInstantiate])\<rparr>"
  have n: "update_task ?s2 = None" by simp
  from fires have "\<exists>old \<in> set (items s). old \<notin> destroyed ?s2 \<and> on_destroy ?s2 old \<noteq> []"
    by simp
  from destroy_items_sched_fires [OF n this] refresh_sched [OF p]
  have uq: "update_task (snd (refresh s)) = Some (next_task s)"
    "queue (snd (refresh s)) = queue s @ [next_task s]"
    by simp_all
  from destroy_items_schedules [of "items s" ?s2] obtain evs where evs:
    "trace (destroy_items (items s) ?s2) = trace ?s2 @ evs"
    "queue (destroy_items (items s) ?s2) = queue ?s2 @ schedules_of evs"
    by blast
  from evs(2) uq(2) refresh_sched(2) [OF p] have sch: "schedules_of evs = [next_task s]"
    by simp
  have "trace (snd (refresh s)) = trace s @ (if base s = None then [] else [EvInstantiate]) @ evs
          @ (case parent s of Some p \<Rightarrow> if new = [] then [] else [EvInsert p new] | None \<Rightarrow> [])"
    using evs(1) by (simp add: refresh_trace [OF p])
  then have "events_since s (snd (refresh s)) = (if base s = None then [] else [EvInstantiate]) @ evs
          @ (case parent s of Some p \<Rightarrow> if new = [] then [] else [EvInsert p new] | None \<Rightarrow> [])"
    by (simp add: events_since_def)
  then have "schedules_of (events_since s (snd (refresh s))) = [next_task s]"
    using sch by (simp split: option.splits)
  with uq show ?thesis by simp
qed

lemma produce_queue [simp]:
  "fst (produce (s\<lparr>queue := q\<rparr>)) = fst (produce s)"
  by (simp add: produce_def instantiate_def split: option.splits sum.splits)

lemma events_since_queue [simp]:
  "events_since (s\<lparr>queue := q\<rparr>) s' = events_since s s'"
  by (simp add: events_since_def)

lemma run_next_pending:
  "pending_agrees s \<Longrightarrow> update_task s = Some t \<Longrightarrow> run_next s = refresh (s\<lparr>queue := []\<rparr>)"
  by (simp add: run_next_def pending_agrees_def)

text \<open>
  C4. A change to \<open>base\<close>, \<open>args\<close> or \<open>data\<close> schedules a refresh task only when none is
  pending: changes schedule nothing while the handle is set, and with none pending
  \<open>M \<ge> 1\<close> changes schedule exactly one. On a node whose queue holds what \<open>_update_task\<close>
  records, this stays so through every sequence of such changes and of runs of the
  queued task, and at most one task is queued at any time. \<open>_refresh\<close> clears the handle
  before the old items are torn down, whatever the handle was: its outcome does not
  depend on the handle it starts with, the handle is \<open>None\<close> afterwards when no change
  was made during the teardown, and a change made during the teardown schedules a
  fresh task that is recorded and queued. The same holds of the run of the queued task
  by the application, after which the queue holds the fresh task alone.
\<close>

theorem refresh_scheduling:
  "(pending_agrees s \<longrightarrow>
        pending_agrees (fold do_action acts s)
      \<and> length (queue (fold do_action acts s)) \<le> 1)
   \<and> (update_task s \<noteq> None \<longrightarrow>
         update_task (fold apply_write ws s) = update_task s
       \<and> queue (fold apply_write ws s) = queue s
       \<and> events_since s (fold apply_write ws s) = [])
   \<and> (update_task s = None \<and> ws \<noteq> [] \<longrightarrow>
         update_task (fold apply_write ws s) = Some (next_task s)
       \<and> queue (fold apply_write ws s) = queue s @ [next_task s]
       \<and> events_since s (fold apply_write ws s) = [EvSchedule (next_task s)]
       \<and> (pending_agrees s \<longrightarrow> queue (fold apply_write ws s) = [next_task s]))
   \<and> refresh s = refresh (s\<lparr>update_task := None\<rparr>)
   \<and> (\<forall>e. fst (produce s) = Inl e \<longrightarrow>
         update_task (snd (refresh s)) = None
       \<and> queue (snd (refresh s)) = queue s
       \<and> schedules_of (events_since s (snd (refresh s))) = [])
   \<and> (\<forall>new. fst (produce s) = Inr new
            \<and> (\<forall>old \<in> set (items s). old \<notin> destroyed s \<longrightarrow> on_destroy s old = []) \<longrightarrow>
         update_task (snd (refresh s)) = None
       \<and> queue (snd (refresh s)) = queue s
       \<and> schedules_of (events_since s (snd (refresh s))) = [])
   \<and> (\<forall>new. fst (produce s) = Inr new
            \<and> (\<exists>old \<in> set (items s). old \<notin> destroyed s \<and> on_destroy s old \<noteq> []) \<longrightarrow>
         update_task (snd (refresh s)) = Some (next_task s)
       \<and> queue (snd (refresh s)) = queue s @ [next_task s]
       \<and> schedules_of (events_since s (snd (refresh s))) = [next_task s])
   \<and> (\<forall>t. pending_agrees s \<and> update_task s = Some t \<longrightarrow>
         run_next s = refresh (s\<lparr>queue := []\<rparr>)
       \<and> (\<forall>e. fst (produce s) = Inl e \<longrightarrow>
             update_task (snd (run_next s)) = None
           \<and> queue (snd (run_next s)) = []
           \<and> schedules_of (events_since s (snd (run_next s))) = [])
       \<and> (\<forall>new. fst (produce s) = Inr new
                \<and> (\<forall>old \<in> set (items s). old \<notin> destroyed s \<longrightarrow> on_destroy s old = []) \<longrightarrow>
             update_task (snd (run_next s)) = None
           \<and> queue (snd (run_next s)) = []
           \<and> schedules_of (events_since s (snd (run_next s))) = [])
       \<and> (\<forall>new. fst (produce s) = Inr new
                \<and> (\<exists>old \<in> set (items s). old \<notin> destroyed s \<and> on_destroy s old \<noteq> []) \<longrightarrow>
             update_task (snd (run_next s)) = Some (next_task s)
           \<and> queue (snd (run_next s)) = [next_task s]
           \<and> schedules_of (events_since s (snd (run_next s))) = [next_task s]))"
proof -
  have a: "pending_agrees s \<longrightarrow>
        pending_agrees (fold do_action acts s)
      \<and> length (queue (fold do_action acts s)) \<le> 1"
    using actions_agree [of s acts] agrees_short [of "fold do_action acts s"] by blast
  have b: "update_task s \<noteq> None \<longrightarrow>
         update_task (fold apply_write ws s) = update_task s
       \<and> queue (fold apply_write ws s) = queue s
       \<and> events_since s (fold apply_write ws s) = []"
    by (auto simp: writes_sched events_since_def)
  have c: "update_task s = None \<and> ws \<noteq> [] \<longrightarrow>
         update_task (fold apply_write ws s) = Some (next_task s)
       \<and> queue (fold apply_write ws s) = queue s @ [next_task s]
       \<and> events_since s (fold apply_write ws s) = [EvSchedule (next_task s)]
       \<and> (pending_agrees s \<longrightarrow> queue (fold apply_write ws s) = [next_task s])"
    by (auto simp: writes_sched events_since_def pending_agrees_def)
  have d: "refresh s = refresh (s\<lparr>update_task := None\<rparr>)"
    by (simp add: refresh_clears_first)
  have e: "\<forall>e. fst (produce s) = Inl e \<longrightarrow>
         update_task (snd (refresh s)) = None
       \<and> queue (snd (refresh s)) = queue s
       \<and> schedules_of (events_since s (snd (refresh s))) = []"
    using refresh_handle_raised [of s] by blast
  have f: "\<forall>new. fst (produce s) = Inr new
            \<and> (\<forall>old \<in> set (items s). old \<notin> destroyed s \<longrightarrow> on_destroy s old = []) \<longrightarrow>
         update_task (snd (refresh s)) = None
       \<and> queue (snd (refresh s)) = queue s
       \<and> schedules_of (events_since s (snd (refresh s))) = []"
    using refresh_handle_quiet [of s] by blast
  have g: "\<forall>new. fst (produce s) = Inr new
            \<and> (\<exists>old \<in> set (items s). old \<notin> destroyed s \<and> on_destroy s old \<noteq> []) \<longrightarrow>
         update_task (snd (refresh s)) = Some (next_task s)
       \<and> queue (snd (refresh s)) = queue s @ [next_task s]
       \<and> schedules_of (events_since s (snd (refresh s))) = [next_task s]"
    using refresh_handle_fires [of s] by blast
  have h: "\<forall>t. pending_agrees s \<and> update_task s = Some t \<longrightarrow>
         run_next s = refresh (s\<lparr>queue := []\<rparr>)
       \<and> (\<forall>e. fst (produce s) = Inl e \<longrightarrow>
             update_task (snd (run_next s)) = None
           \<and> queue (snd (run_next s)) = []
           \<and> schedules_of (events_since s (snd (run_next s))) = [])
       \<and> (\<forall>new. fst (produce s) = Inr new
                \<and> (\<forall>old \<in> set (items s). old \<notin> destroyed s \<longrightarrow> on_destroy s old = []) \<longrightarrow>
             update_task (snd (run_next s)) = None
           \<and> queue (snd (run_next s)) = []
           \<and> schedules_of (events_since s (snd (run_next s))) = [])
       \<and> (\<forall>new. fst (produce s) = Inr new
                \<and> (\<exists>old \<in> set (items s). old \<notin> destroyed s \<and> on_destroy s old \<noteq> []) \<longrightarrow>
             update_task (snd (run_next s)) = Some (next_task s)
           \<and> queue (snd (run_next s)) = [next_task s]
           \<and> schedules_of (events_since s (snd (run_next s))) = [next_task s])"
  proof (intro allI impI, elim conjE)
    fix t assume ag: "pending_agrees s" and ut: "update_task s = Some t"
    let ?u = "s\<lparr>queue := []\<rparr>"
    have r: "run_next s = refresh ?u" using ag ut by (rule run_next_pending)
    have r1: "\<forall>e. fst (produce s) = Inl e \<longrightarrow>
             update_task (snd (run_next s)) = None
           \<and> queue (snd (run_next s)) = []
           \<and> schedules_of (events_since s (snd (run_next s))) = []"
      using refresh_handle_raised [of ?u] by (simp add: r)
    have r2: "\<forall>new. fst (produce s) = Inr new
                \<and> (\<forall>old \<in> set (items s). old \<notin> destroyed s \<longrightarrow> on_destroy s old = []) \<longrightarrow>
             update_task (snd (run_next s)) = None
           \<and> queue (snd (run_next s)) = []
           \<and> schedules_of (events_since s (snd (run_next s))) = []"
      using refresh_handle_quiet [of ?u] by (simp add: r)
    have r3: "\<forall>new. fst (produce s) = Inr new
                \<and> (\<exists>old \<in> set (items s). old \<notin> destroyed s \<and> on_destroy s old \<noteq> []) \<longrightarrow>
             update_task (snd (run_next s)) = Some (next_task s)
           \<and> queue (snd (run_next s)) = [next_task s]
           \<and> schedules_of (events_since s (snd (run_next s))) = [next_task s]"
      using refresh_handle_fires [of ?u] by (simp add: r)
    from r r1 r2 r3 show "run_next s = refresh (s\<lparr>queue := []\<rparr>)
       \<and> (\<forall>e. fst (produce s) = Inl e \<longrightarrow>
             update_task (snd (run_next s)) = None
           \<and> queue (snd (run_next s)) = []
           \<and> schedules_of (events_since s (snd (run_next s))) = [])
       \<and> (\<forall>new. fst (produce s) = Inr new
                \<and> (\<forall>old \<in> set (items s). old \<notin> destroyed s \<longrightarrow> on_destroy s old = []) \<longrightarrow>
             update_task (snd (run_next s)) = None
           \<and> queue (snd (run_next s)) = []
           \<and> schedules_of (events_since s (snd (run_next s))) = [])
       \<and> (\<forall>new. fst (produce s) = Inr new
                \<and> (\<exists>old \<in> set (items s). old \<notin> destroyed s \<and> on_destroy s old \<noteq> []) \<longrightarrow>
             update_task (snd (run_next s)) = Some (next_task s)
           \<and> queue (snd (run_next s)) = [next_task s]
           \<and> schedules_of (events_since s (snd (run_next s))) = [next_task s])"
      by (intro conjI)
  qed
  show ?thesis
    by (intro conjI) (rule a, rule b, rule c, rule d, rule e, rule f, rule g, rule h)
qed

theorem refresh_scheduling_witness:
  "pending_agrees (fresh_node\<lparr>parent := Some 100, items := [4],
                               on_destroy := (\<lambda>x. [SetArgs [PyInt 9]])\<rparr>)
   \<and> all_replace [SetArgs [PyInt 1], SetBase (Some (\<lambda>a. Inr (\<lambda>d. Inr [7]))), SetArgs [PyInt 3]]
         (fresh_node\<lparr>parent := Some 100, items := [4], on_destroy := (\<lambda>x. [SetArgs [PyInt 9]])\<rparr>)
   \<and> queue (fold apply_write
         [SetArgs [PyInt 1], SetBase (Some (\<lambda>a. Inr (\<lambda>d. Inr [7]))), SetArgs [PyInt 3]]
         (fresh_node\<lparr>parent := Some 100, items := [4], on_destroy := (\<lambda>x. [SetArgs [PyInt 9]])\<rparr>))
       = [0]
   \<and> events_since
         (fresh_node\<lparr>parent := Some 100, items := [4], on_destroy := (\<lambda>x. [SetArgs [PyInt 9]])\<rparr>)
         (fold apply_write
           [SetArgs [PyInt 1], SetBase (Some (\<lambda>a. Inr (\<lambda>d. Inr [7]))), SetArgs [PyInt 3]]
           (fresh_node\<lparr>parent := Some 100, items := [4], on_destroy := (\<lambda>x. [SetArgs [PyInt 9]])\<rparr>))
       = [EvSchedule 0]
   \<and> fold apply_write
         [SetArgs [PyInt 1], SetBase (Some (\<lambda>a. Inr (\<lambda>d. Inr [7]))), SetArgs [PyInt 3]]
         (fresh_node\<lparr>parent := Some 100, items := [4], on_destroy := (\<lambda>x. [SetArgs [PyInt 9]])\<rparr>)
       = fresh_node\<lparr>base := Some (\<lambda>a. Inr (\<lambda>d. Inr [7])), args := [PyInt 3],
                      update_task := Some 0, items := [4], parent := Some 100, queue := [0],
                      next_task := 1, on_destroy := (\<lambda>x. [SetArgs [PyInt 9]]),
                      trace := [EvSchedule 0]\<rparr>
   \<and> pending_agrees
         (fresh_node\<lparr>base := Some (\<lambda>a. Inr (\<lambda>d. Inr [7])), args := [PyInt 3],
                      update_task := Some 0, items := [4], parent := Some 100, queue := [0],
                      next_task := 1, on_destroy := (\<lambda>x. [SetArgs [PyInt 9]]),
                      trace := [EvSchedule 0]\<rparr>)
   \<and> replaces (SetArgs [PyInt 9])
         (fresh_node\<lparr>base := Some (\<lambda>a. Inr (\<lambda>d. Inr [7])), args := [PyInt 3],
                      update_task := Some 0, items := [4], parent := Some 100, queue := [0],
                      next_task := 1, on_destroy := (\<lambda>x. [SetArgs [PyInt 9]]),
                      trace := [EvSchedule 0]\<rparr>)
   \<and> update_task (snd (run_next
         (fresh_node\<lparr>base := Some (\<lambda>a. Inr (\<lambda>d. Inr [7])), args := [PyInt 3],
                      update_task := Some 0, items := [4], parent := Some 100, queue := [0],
                      next_task := 1, on_destroy := (\<lambda>x. [SetArgs [PyInt 9]]),
                      trace := [EvSchedule 0]\<rparr>))) = Some 1
   \<and> queue (snd (run_next
         (fresh_node\<lparr>base := Some (\<lambda>a. Inr (\<lambda>d. Inr [7])), args := [PyInt 3],
                      update_task := Some 0, items := [4], parent := Some 100, queue := [0],
                      next_task := 1, on_destroy := (\<lambda>x. [SetArgs [PyInt 9]]),
                      trace := [EvSchedule 0]\<rparr>))) = [1]"
proof -
  let ?s0 = "fresh_node\<lparr>parent := Some 100, items := [4], on_destroy := (\<lambda>x. [SetArgs [PyInt 9]])\<rparr>"
  let ?ws = "[SetArgs [PyInt 1], SetBase (Some (\<lambda>a. Inr (\<lambda>d. Inr [7]))), SetArgs [PyInt 3]]"
  let ?s1 = "fresh_node\<lparr>base := Some (\<lambda>a. Inr (\<lambda>d. Inr [7])), args := [PyInt 3],
                      update_task := Some 0, items := [4], parent := Some 100, queue := [0],
                      next_task := 1, on_destroy := (\<lambda>x. [SetArgs [PyInt 9]]),
                      trace := [EvSchedule 0]\<rparr>"
  have h0: "pending_agrees ?s0" by (simp add: pending_agrees_def fresh_node_def)
  have ar: "all_replace ?ws ?s0"
    by (simp add: schedule_refresh_def schedule_def fresh_node_def)
  have n0: "update_task ?s0 = None" "next_task ?s0 = 0" "?ws \<noteq> []"
    by (simp_all add: fresh_node_def)
  have e1: "fold apply_write ?ws ?s0 = ?s1"
    by (simp add: schedule_refresh_def schedule_def fresh_node_def)
  have h1: "pending_agrees ?s1" by (simp add: pending_agrees_def)
  have u1: "update_task ?s1 = Some 0" by simp
  have rp: "replaces (SetArgs [PyInt 9]) ?s1" by simp
  have p1: "fst (produce ?s1) = Inr [7]" by (simp add: produce_def instantiate_def)
  have fires: "\<exists>old \<in> set (items ?s1). old \<notin> destroyed ?s1 \<and> on_destroy ?s1 old \<noteq> []"
    by (simp add: fresh_node_def)
  have n1: "next_task ?s1 = 1" by simp
  note w0 = refresh_scheduling [of ?s0 "[]" ?ws]
  from w0 n0(1,3) h0
  have "queue (fold apply_write ?ws ?s0) = [next_task ?s0]"
    "events_since ?s0 (fold apply_write ?ws ?s0) = [EvSchedule (next_task ?s0)]"
    by blast+
  then have a: "queue (fold apply_write ?ws ?s0) = [0]"
    "events_since ?s0 (fold apply_write ?ws ?s0) = [EvSchedule 0]"
    by (simp_all only: n0(2))
  note w1 = refresh_scheduling [of ?s1 "[]" "[]"]
  from w1 h1 u1 p1 fires
  have "update_task (snd (run_next ?s1)) = Some (next_task ?s1)"
    "queue (snd (run_next ?s1)) = [next_task ?s1]"
    by blast+
  then have b: "update_task (snd (run_next ?s1)) = Some 1" "queue (snd (run_next ?s1)) = [1]"
    by (simp_all only: n1)
  show ?thesis
    by (intro conjI) (rule h0, rule ar, rule a(1), rule a(2), rule e1, rule h1, rule rp, rule b(1), rule b(2))
qed

end
